theory Spec2Isabelle
  imports Main
begin

section \<open>JavaScript values\<close>

text \<open>
  The values threaded through a phase are JavaScript values. An object carries whether it
  is callable (\<^verbatim>\<open>typeof v === "function"\<close>), whether \<^verbatim>\<open>Object.freeze\<close> has been applied
  to it, and its own enumerable properties in insertion order. Objects are values here, not
  references: a hook that "mutates" its argument returns the changed object.
\<close>

datatype jsval =
    Undefined
  | Null
  | JBool bool
  | JNum int
  | JNaN
  | JStr string
  | JObj bool bool "(string \<times> jsval) list"

text \<open>\<^verbatim>\<open>!v\<close> is true exactly for the falsy values: undefined, null, false, 0, NaN and "".\<close>

fun truthy :: "jsval \<Rightarrow> bool" where
  "truthy Undefined = False"
| "truthy Null = False"
| "truthy (JBool b) = b"
| "truthy (JNum n) = (n \<noteq> 0)"
| "truthy JNaN = False"
| "truthy (JStr s) = (s \<noteq> [])"
| "truthy (JObj c f ps) = True"

text \<open>\<^verbatim>\<open>a || b\<close> on strings: the empty string is falsy.\<close>

definition or_else :: "string \<Rightarrow> string \<Rightarrow> string" where
  "or_else a b = (if a \<noteq> [] then a else b)"

fun is_function :: "jsval option \<Rightarrow> bool" where
  "is_function (Some (JObj c f ps)) = c"
| "is_function _ = False"

text \<open>\<^verbatim>\<open>Object.isFrozen\<close>: a value that is not an object counts as frozen.\<close>

fun Object_isFrozen :: "jsval \<Rightarrow> bool" where
  "Object_isFrozen (JObj c f ps) = f"
| "Object_isFrozen _ = True"

section \<open>Errors\<close>

text \<open>
  Every \<^verbatim>\<open>throw new Error(...)\<close> of the source is a constructor; the comment gives the
  message. \<open>TypeError\<close> and \<open>RangeError\<close> are raised by the JavaScript runtime, and
  \<open>Thrown\<close> is an exception a callback raises itself.
\<close>

datatype error =
    UnknownPhase string
    \<comment> \<open>hook: Sorry, 'hookName' is not a supported hook;
        applyHooks: Sorry, 'hookName' is not a registered hook\<close>
  | HookReturnedEmpty string string
    \<comment> \<open>Hook 'display name' for 'hookName' returned falsy value\<close>
  | MissingWatcherFn
    \<comment> \<open>You must provide both a listener and an unlistener\<close>
  | AlreadyWatching
    \<comment> \<open>We're already watching this schema!\<close>
  | NotWatching
    \<comment> \<open>We're not watching this schema!\<close>
  | SynchronousChangeDuringSubscribe
    \<comment> \<open>Watcher triggered schema change synchronously, that's a bug.\<close>
  | TypeError string
  | RangeError
  | Thrown string

section \<open>The builder\<close>

text \<open>
  Callbacks (hooks, watchers, listeners and the collaborators of \<^verbatim>\<open>createBuild\<close>) act on
  an outside world \<open>'w\<close> and may throw; they do not call back into the builder, but for a
  watcher, which may call the trigger it is handed, and for a hook that registers hooks
  while it is called (\<open>applyHooks_live\<close>). A hook is a function object with its
  \<^verbatim>\<open>displayName\<close> and \<^verbatim>\<open>name\<close> (the empty string when unset: both are only tested
  for truthiness). \<^verbatim>\<open>hook\<close> sets the \<^verbatim>\<open>displayName\<close> of the function it is given; the
  model stores the function so decorated.
\<close>

record 'w hookfn =
  displayName :: string
  name :: string
  call :: "jsval \<Rightarrow> jsval \<Rightarrow> jsval \<Rightarrow> 'w \<Rightarrow> (error + jsval) \<times> 'w"

text \<open>
  A watcher's \<^verbatim>\<open>listen\<close> and \<^verbatim>\<open>unlisten\<close> receive the trigger callback (its identity,
  or nothing when the reference is null) and run a sequence of steps: an effect on the
  world, which may throw, or a synchronous call of the trigger they were handed.
\<close>

datatype 'w action =
    Effect "'w \<Rightarrow> (error + unit) \<times> 'w"
  | CallTrigger

type_synonym 'w watcher = "nat option \<Rightarrow> 'w action list"

type_synonym ('w, 'a) listener = "'a \<Rightarrow> 'w \<Rightarrow> (error + unit) \<times> 'w"

text \<open>
  A record of what was called, kept beside the state for the statements below: each hook
  call with the phase, the hook's display name and its three arguments; each call of
  \<^verbatim>\<open>build.buildObjectWithHooks\<close>; each \<^verbatim>\<open>emit("schema", ...)\<close>; each call of a watcher's
  listen and unlisten with the position of the watcher and the trigger it was given.
\<close>

datatype 'a event =
    Invoked string string jsval jsval jsval
  | Constructed jsval
  | Emitted 'a
  | Listened nat "nat option"
  | Unlistened nat "nat option"

text \<open>
  The fields of \<^verbatim>\<open>this\<close>. \<open>generatedSchema\<close>, \<open>explicitSchemaListener\<close> and
  \<open>triggerChange\<close> are \<open>None\<close> while undefined or null; an artifact is an object, hence
  truthy. \<open>triggerChange\<close> holds the identity of the closure that \<^verbatim>\<open>watchSchema\<close> created
  and \<open>triggersIssued\<close> counts the closures created so far. \<open>schemaListeners\<close> is the
  listener array of the inherited EventEmitter for the event "schema". \<open>debugLog\<close> holds
  the lines given to \<^verbatim>\<open>debug\<close>.
\<close>

record ('w, 'a) SchemaBuilder =
  watchers :: "'w watcher list"
  unwatchers :: "'w watcher list"
  depth :: int
  hooks :: "string \<rightharpoonup> 'w hookfn list"
  currentPluginName :: string
  generatedSchema :: "'a option"
  watching :: bool
  explicitSchemaListener :: "('w, 'a) listener option"
  triggerChange :: "nat option"
  schemaListeners :: "('w, 'a) listener list"
  world :: 'w
  debugLog :: "string list"
  trace :: "'a event list"
  triggersIssued :: nat

type_synonym ('w, 'a, 'r) action_on =
  "('w, 'a) SchemaBuilder \<Rightarrow> (error + 'r) \<times> ('w, 'a) SchemaBuilder"

definition phase_names :: "string list" where
  "phase_names =
    [''build'', ''init'', ''GraphQLSchema'',
     ''GraphQLObjectType'', ''GraphQLObjectType:interfaces'', ''GraphQLObjectType:fields'',
     ''GraphQLInputObjectType'', ''GraphQLInputObjectType:fields'',
     ''GraphQLEnumType'', ''GraphQLEnumType:values'',
     ''field'', ''field:args'', ''inputField'']"

text \<open>The constructor: every phase starts with an empty array, the depth at -1.\<close>

definition new_SchemaBuilder :: "'w \<Rightarrow> ('w, 'a) SchemaBuilder" where
  "new_SchemaBuilder w =
    \<lparr> watchers = [], unwatchers = [], depth = - 1,
      hooks = map_of (map (\<lambda>n. (n, [])) phase_names),
      currentPluginName = [], generatedSchema = None, watching = False,
      explicitSchemaListener = None, triggerChange = None, schemaListeners = [],
      world = w, debugLog = [], trace = [], triggersIssued = 0 \<rparr>"

definition setPluginName :: "string \<Rightarrow> ('w, 'a) SchemaBuilder \<Rightarrow> ('w, 'a) SchemaBuilder" where
  "setPluginName n s = s\<lparr>currentPluginName := n\<rparr>"

subsection \<open>Property lookup in \<^verbatim>\<open>this.hooks\<close>\<close>

text \<open>
  \<^verbatim>\<open>this.hooks\<close> is an object literal, so \<^verbatim>\<open>this.hooks[hookName]\<close> also finds the
  properties inherited from \<^verbatim>\<open>Object.prototype\<close>. Such a value is truthy, has no
  \<^verbatim>\<open>push\<close> and is not iterable.
\<close>

definition Object_prototype_names :: "string list" where
  "Object_prototype_names =
    [''constructor'', ''__defineGetter__'', ''__defineSetter__'', ''hasOwnProperty'',
     ''__lookupGetter__'', ''__lookupSetter__'', ''isPrototypeOf'',
     ''propertyIsEnumerable'', ''toString'', ''valueOf'', ''__proto__'',
     ''toLocaleString'']"

datatype 'h slot = NoProperty | HookArray "'h list" | Inherited

definition hooks_get :: "(string \<rightharpoonup> 'h list) \<Rightarrow> string \<Rightarrow> 'h slot" where
  "hooks_get hs n =
    (case hs n of
       Some l \<Rightarrow> HookArray l
     | None \<Rightarrow> if n \<in> set Object_prototype_names then Inherited else NoProperty)"

subsection \<open>hook\<close>

definition hook ::
  "string \<Rightarrow> 'w hookfn \<Rightarrow> ('w, 'a, unit) action_on" where
  "hook hookName fn s =
    (case hooks_get (hooks s) hookName of
       NoProperty \<Rightarrow> (Inl (UnknownPhase hookName), s)
     | sl \<Rightarrow>
        (let fn' =
           (if currentPluginName s \<noteq> [] \<and> displayName fn = []
            then fn\<lparr>displayName :=
                   currentPluginName s @ ''/'' @ hookName @ ''/'' @
                   or_else (displayName fn) (or_else (name fn) ''anonymous'')\<rparr>
            else fn)
         in case sl of
              HookArray l \<Rightarrow> (Inr (), s\<lparr>hooks := (hooks s)(hookName \<mapsto> l @ [fn'])\<rparr>)
            | _ \<Rightarrow> (Inl (TypeError ''this.hooks[hookName].push is not a function''), s)))"

text \<open>Registering several functions for a phase, one call of \<^verbatim>\<open>hook\<close> after the other.\<close>

definition register ::
  "string \<Rightarrow> 'w hookfn list \<Rightarrow> ('w, 'a) SchemaBuilder \<Rightarrow> ('w, 'a) SchemaBuilder" where
  "register hookName hs s = fold (\<lambda>h s'. snd (hook hookName h s')) hs s"

subsection \<open>applyHooks\<close>

definition INDENT :: string where
  "INDENT = ''  ''"

text \<open>\<^verbatim>\<open>String.prototype.repeat\<close> throws a RangeError on a negative count.\<close>

definition repeat :: "string \<Rightarrow> int \<Rightarrow> error + string" where
  "repeat str n = (if n < 0 then Inl RangeError else Inr (concat (replicate (nat n) str)))"

definition quoted :: "string \<Rightarrow> string" where
  "quoted str = CHR 0x27 # str @ [CHR 0x27]"

definition debug :: "string \<Rightarrow> ('w, 'a) SchemaBuilder \<Rightarrow> ('w, 'a) SchemaBuilder" where
  "debug line s = s\<lparr>debugLog := debugLog s @ [line]\<rparr>"

text \<open>The body of the inner \<^verbatim>\<open>try\<close>: one hook, called on the running value.\<close>

definition hook_step ::
  "jsval \<Rightarrow> string \<Rightarrow> jsval \<Rightarrow> string \<Rightarrow> 'w hookfn \<Rightarrow> jsval \<Rightarrow> ('w, 'a, jsval) action_on" where
  "hook_step build hookName context debugStr h newObj s =
    (let hookDisplayName = or_else (displayName h) (or_else (name h) ''anonymous'')
     in case repeat INDENT (depth s) of
          Inl e \<Rightarrow> (Inl e, s)
        | Inr ind \<Rightarrow>
           (let s1 = debug (ind @ ''['' @ hookName @ debugStr @ '']:   Executing '' @
                            quoted hookDisplayName) s;
                s2 = s1\<lparr>trace := trace s1 @
                          [Invoked hookName hookDisplayName newObj build context]\<rparr>;
                rw = call h newObj build context (world s2);
                s3 = s2\<lparr>world := snd rw\<rparr>
            in case fst rw of
                 Inl e \<Rightarrow> (Inl e, s3)
               | Inr v \<Rightarrow>
                  if \<not> truthy v
                  then (Inl (HookReturnedEmpty
                              (or_else (displayName h) (or_else (name h) ''anonymous''))
                              hookName), s3)
                  else (case repeat INDENT (depth s3) of
                          Inl e \<Rightarrow> (Inl e, s3)
                        | Inr ind' \<Rightarrow>
                           (Inr v, debug (ind' @ ''['' @ hookName @ debugStr @ '']:   '' @
                                          quoted hookDisplayName @ '' complete'') s3))))"

text \<open>
  The \<^verbatim>\<open>for (const hook of hooks)\<close> loop; the depth goes up before each hook and the
  \<^verbatim>\<open>finally\<close> takes it down again, also when the hook fails. This is the loop over
  hooks that register no hook while they run, so that the array is the same at every
  step; the loop over the live array is \<open>for_hooks_live\<close> below, and the two agree
  where nothing is registered (lemma \<open>for_hooks_live_fixed\<close>).
\<close>

fun for_hooks ::
  "jsval \<Rightarrow> string \<Rightarrow> jsval \<Rightarrow> string \<Rightarrow> 'w hookfn list \<Rightarrow> jsval \<Rightarrow> ('w, 'a, jsval) action_on" where
  "for_hooks build hookName context debugStr [] newObj s = (Inr newObj, s)"
| "for_hooks build hookName context debugStr (h # hs) newObj s =
    (case hook_step build hookName context debugStr h newObj (s\<lparr>depth := depth s + 1\<rparr>) of
       (Inl e, s') \<Rightarrow> (Inl e, s'\<lparr>depth := depth s' - 1\<rparr>)
     | (Inr v, s') \<Rightarrow>
         for_hooks build hookName context debugStr hs v (s'\<lparr>depth := depth s' - 1\<rparr>))"

definition applyHooks ::
  "jsval \<Rightarrow> string \<Rightarrow> jsval \<Rightarrow> jsval \<Rightarrow> string \<Rightarrow> ('w, 'a, jsval) action_on" where
  "applyHooks build hookName oldObj context debugStr s =
    (let s0 = s\<lparr>depth := depth s + 1\<rparr>;
         rs =
          (case repeat INDENT (depth s0) of
             Inl e \<Rightarrow> (Inl e, s0)
           | Inr ind \<Rightarrow>
              (let s1 = debug (ind @ ''['' @ hookName @ debugStr @ '']: Running...'') s0
               in case hooks_get (hooks s1) hookName of
                    NoProperty \<Rightarrow> (Inl (UnknownPhase hookName), s1)
                  | Inherited \<Rightarrow> (Inl (TypeError ''hooks is not iterable''), s1)
                  | HookArray hs \<Rightarrow>
                     (case for_hooks build hookName context debugStr hs oldObj s1 of
                        (Inl e, s2) \<Rightarrow> (Inl e, s2)
                      | (Inr newObj, s2) \<Rightarrow>
                         (case repeat INDENT (depth s2) of
                            Inl e \<Rightarrow> (Inl e, s2)
                          | Inr ind2 \<Rightarrow>
                             (Inr newObj,
                              debug (ind2 @ ''['' @ hookName @ debugStr @ '']: Complete'') s2)))))
     in (fst rs, (snd rs)\<lparr>depth := depth (snd rs) - 1\<rparr>))"

subsection \<open>applyHooks, when hooks register hooks\<close>







subsection \<open>addWatcher\<close>

definition addWatcher ::
  "'w watcher option \<Rightarrow> 'w watcher option \<Rightarrow> ('w, 'a, unit) action_on" where
  "addWatcher listen unlisten s =
    (case (listen, unlisten) of
       (Some l, Some u) \<Rightarrow>
         (Inr (), s\<lparr>watchers := watchers s @ [l], unwatchers := unwatchers s @ [u]\<rparr>)
     | _ \<Rightarrow> (Inl MissingWatcherFn, s))"

subsection \<open>createBuild\<close>

text \<open>
  \<^verbatim>\<open>makeNewBuild\<close> and \<^verbatim>\<open>bindAll\<close> are modules of the repository outside the file
  verified here, and \<^verbatim>\<open>buildObjectWithHooks\<close> is a member of the build object that
  \<^verbatim>\<open>makeNewBuild\<close> supplies. They are parameters: the seed object, the object
  \<^verbatim>\<open>bindAll\<close> leaves behind (or the error it throws), and the construction of the
  artifact from the build object.
\<close>

record ('w, 'a) collaborators =
  makeNewBuild :: jsval
  bindAll :: "jsval \<Rightarrow> string list \<Rightarrow> error + jsval"
  buildObjectWithHooks :: "jsval \<Rightarrow> 'w \<Rightarrow> (error + 'a) \<times> 'w"

text \<open>
  \<^verbatim>\<open>Object.keys(build).filter(key => typeof build[key] === "function")\<close>.
  \<^verbatim>\<open>Object.keys\<close> throws on undefined and null; a primitive has no function-valued
  own property.
\<close>

fun function_keys :: "jsval \<Rightarrow> error + string list" where
  "function_keys Undefined = Inl (TypeError ''Cannot convert undefined or null to object'')"
| "function_keys Null = Inl (TypeError ''Cannot convert undefined or null to object'')"
| "function_keys (JObj c f ps) = Inr (filter (\<lambda>k. is_function (map_of ps k)) (map fst ps))"
| "function_keys v = Inr []"

fun Object_freeze :: "jsval \<Rightarrow> jsval" where
  "Object_freeze (JObj c f ps) = JObj c True ps"
| "Object_freeze v = v"

definition createBuild ::
  "('w, 'a) collaborators \<Rightarrow> ('w, 'a, jsval) action_on" where
  "createBuild env s =
    (case applyHooks Null ''build'' (makeNewBuild env) Undefined [] s of
       (Inl e, s1) \<Rightarrow> (Inl e, s1)
     | (Inr build, s1) \<Rightarrow>
        (case function_keys build of
           Inl e \<Rightarrow> (Inl e, s1)
         | Inr ks \<Rightarrow>
            (case bindAll env build ks of
               Inl e \<Rightarrow> (Inl e, s1)
             | Inr bound \<Rightarrow>
                (let frozen = Object_freeze bound
                 in case applyHooks frozen ''init'' (JObj False False []) Undefined [] s1 of
                      (Inl e, s2) \<Rightarrow> (Inl e, s2)
                    | (Inr v, s2) \<Rightarrow> (Inr frozen, s2)))))"

subsection \<open>buildSchema\<close>

definition buildSchema ::
  "('w, 'a) collaborators \<Rightarrow> ('w, 'a, 'a) action_on" where
  "buildSchema env s =
    (case generatedSchema s of
       Some a \<Rightarrow> (Inr a, s)
     | None \<Rightarrow>
        (case createBuild env s of
           (Inl e, s1) \<Rightarrow> (Inl e, s1)
         | (Inr build, s1) \<Rightarrow>
            (let s2 = s1\<lparr>trace := trace s1 @ [Constructed build]\<rparr>;
                 rw = buildObjectWithHooks env build (world s2)
             in case fst rw of
                  Inl e \<Rightarrow> (Inl e, s2\<lparr>world := snd rw\<rparr>)
                | Inr a \<Rightarrow> (Inr a, s2\<lparr>world := snd rw, generatedSchema := Some a\<rparr>))))"

subsection \<open>The inherited EventEmitter\<close>

text \<open>
  \<^verbatim>\<open>on("schema", listener)\<close> appends to the listener array; \<^verbatim>\<open>emit("schema", a)\<close>
  calls the listeners in order, and an exception of a listener leaves the emit at once.
\<close>

definition on_schema ::
  "('w, 'a) listener \<Rightarrow> ('w, 'a) SchemaBuilder \<Rightarrow> ('w, 'a) SchemaBuilder" where
  "on_schema l s = s\<lparr>schemaListeners := schemaListeners s @ [l]\<rparr>"

fun call_listeners :: "('w, 'a) listener list \<Rightarrow> 'a \<Rightarrow> 'w \<Rightarrow> (error + unit) \<times> 'w" where
  "call_listeners [] a w = (Inr (), w)"
| "call_listeners (l # ls) a w =
    (case l a w of
       (Inl e, w') \<Rightarrow> (Inl e, w')
     | (Inr u, w') \<Rightarrow> call_listeners ls a w')"

definition emit_schema :: "'a \<Rightarrow> ('w, 'a, unit) action_on" where
  "emit_schema a s =
    (let s1 = s\<lparr>trace := trace s @ [Emitted a]\<rparr>;
         rw = call_listeners (schemaListeners s1) a (world s1)
     in (fst rw, s1\<lparr>world := snd rw\<rparr>))"

subsection \<open>watchSchema\<close>

text \<open>
  The body of the closure \<^verbatim>\<open>this.triggerChange\<close>, but for \<^verbatim>\<open>changed = true\<close>:
  \<^verbatim>\<open>changed\<close> is a local variable of \<^verbatim>\<open>watchSchema\<close>, so the run of a callback returns
  it.
\<close>

definition triggerChange_body ::
  "('w, 'a) collaborators \<Rightarrow> ('w, 'a, unit) action_on" where
  "triggerChange_body env s =
    (case buildSchema env (s\<lparr>generatedSchema := None\<rparr>) of
       (Inl e, s1) \<Rightarrow> (Inl e, s1)
     | (Inr a, s1) \<Rightarrow> emit_schema a s1)"

text \<open>
  Running a watcher callback that was handed the trigger \<open>trig\<close>: the result, whether the
  trigger has been called, and the state.
\<close>

fun run_callback ::
  "('w, 'a) collaborators \<Rightarrow> nat option \<Rightarrow> 'w action list \<Rightarrow> bool \<Rightarrow>
   ('w, 'a) SchemaBuilder \<Rightarrow> (error + unit) \<times> bool \<times> ('w, 'a) SchemaBuilder" where
  "run_callback env trig [] changed s = (Inr (), changed, s)"
| "run_callback env trig (Effect f # as) changed s =
    (case f (world s) of
       (Inl e, w) \<Rightarrow> (Inl e, changed, s\<lparr>world := w\<rparr>)
     | (Inr u, w) \<Rightarrow> run_callback env trig as changed (s\<lparr>world := w\<rparr>))"
| "run_callback env trig (CallTrigger # as) changed s =
    (case trig of
       None \<Rightarrow> (Inl (TypeError ''triggerChange is not a function''), changed, s)
     | Some t \<Rightarrow>
        (case triggerChange_body env s of
           (Inl e, s1) \<Rightarrow> (Inl e, True, s1)
         | (Inr u, s1) \<Rightarrow> run_callback env trig as True s1))"

text \<open>
  \<^verbatim>\<open>this.watchers.forEach(fn => { fn(this.triggerChange); if (changed === true) throw ... })\<close>,
  from the watcher at position \<open>i\<close> on. \<^verbatim>\<open>changed\<close> is false on entry to every
  iteration: the loop is left as soon as it is true.
\<close>

fun subscribe ::
  "('w, 'a) collaborators \<Rightarrow> nat \<Rightarrow> 'w watcher list \<Rightarrow> ('w, 'a, unit) action_on" where
  "subscribe env i [] s = (Inr (), s)"
| "subscribe env i (fn # fns) s =
    (let s1 = s\<lparr>trace := trace s @ [Listened i (triggerChange s)]\<rparr>
     in case run_callback env (triggerChange s1) (fn (triggerChange s1)) False s1 of
          (Inl e, changed, s2) \<Rightarrow> (Inl e, s2)
        | (Inr u, changed, s2) \<Rightarrow>
            if changed then (Inl SynchronousChangeDuringSubscribe, s2)
            else subscribe env (Suc i) fns s2)"

text \<open>
  The state before the first watcher is called: watching, with the listener and the new
  trigger closure stored, and the listener subscribed.
\<close>

definition watch_begin ::
  "('w, 'a) listener option \<Rightarrow> ('w, 'a) SchemaBuilder \<Rightarrow> ('w, 'a) SchemaBuilder" where
  "watch_begin listener s =
    (let s1 = s\<lparr>watching := True, explicitSchemaListener := listener,
                triggerChange := Some (triggersIssued s),
                triggersIssued := Suc (triggersIssued s)\<rparr>
     in case listener of None \<Rightarrow> s1 | Some l \<Rightarrow> on_schema l s1)"

definition watchSchema ::
  "('w, 'a) collaborators \<Rightarrow> ('w, 'a) listener option \<Rightarrow> ('w, 'a, unit) action_on" where
  "watchSchema env listener s =
    (if watching s then (Inl AlreadyWatching, s)
     else
      (let s2 = watch_begin listener s
       in case subscribe env 0 (watchers s2) s2 of
            (Inl e, s3) \<Rightarrow> (Inl e, s3)
          | (Inr u, s3) \<Rightarrow>
             (case buildSchema env s3 of
                (Inl e, s4) \<Rightarrow> (Inl e, s4)
              | (Inr a, s4) \<Rightarrow> emit_schema a s4)))"

subsection \<open>unwatchSchema\<close>

text \<open>\<^verbatim>\<open>this.unwatchers.forEach(fn => { fn(this.triggerChange); })\<close>.\<close>

fun unsubscribe ::
  "('w, 'a) collaborators \<Rightarrow> nat \<Rightarrow> 'w watcher list \<Rightarrow> ('w, 'a, unit) action_on" where
  "unsubscribe env i [] s = (Inr (), s)"
| "unsubscribe env i (fn # fns) s =
    (let s1 = s\<lparr>trace := trace s @ [Unlistened i (triggerChange s)]\<rparr>
     in case run_callback env (triggerChange s1) (fn (triggerChange s1)) False s1 of
          (Inl e, changed, s2) \<Rightarrow> (Inl e, s2)
        | (Inr u, changed, s2) \<Rightarrow> unsubscribe env (Suc i) fns s2)"

text \<open>
  The class inherits from Node's EventEmitter, which has \<^verbatim>\<open>removeListener\<close> and
  \<^verbatim>\<open>off\<close> but no \<^verbatim>\<open>removeEventListener\<close>, and the class defines none: with a
  listener to remove, \<^verbatim>\<open>this.removeEventListener("schema", listener)\<close> is a call of
  undefined.
\<close>

definition unwatchSchema ::
  "('w, 'a) collaborators \<Rightarrow> ('w, 'a, unit) action_on" where
  "unwatchSchema env s =
    (if \<not> watching s then (Inl NotWatching, s)
     else
      (let s1 = s\<lparr>watching := False\<rparr>;
           listener = explicitSchemaListener s1;
           s2 = s1\<lparr>explicitSchemaListener := None\<rparr>
       in case listener of
            Some l \<Rightarrow> (Inl (TypeError ''this.removeEventListener is not a function''), s2)
          | None \<Rightarrow>
             (case unsubscribe env 0 (unwatchers s2) s2 of
                (Inl e, s3) \<Rightarrow> (Inl e, s3)
              | (Inr u, s3) \<Rightarrow> (Inr (), s3\<lparr>triggerChange := None\<rparr>))))"

section \<open>Writes to an object\<close>

text \<open>
  The two ways to write to an object, for the statements about the frozen build object:
  \<^verbatim>\<open>obj[k] = x\<close> and \<^verbatim>\<open>delete obj[k]\<close>, in strict or sloppy mode. The result is the
  object after the statement, or the TypeError. A frozen object refuses both: strict code
  gets a TypeError, sloppy code continues with the object as it was. A primitive never
  takes a property.
\<close>

fun put :: "string \<Rightarrow> jsval \<Rightarrow> (string \<times> jsval) list \<Rightarrow> (string \<times> jsval) list" where
  "put k x [] = [(k, x)]"
| "put k x ((k', y) # ps) = (if k = k' then (k, x) # ps else (k', y) # put k x ps)"

fun assign :: "bool \<Rightarrow> jsval \<Rightarrow> string \<Rightarrow> jsval \<Rightarrow> error + jsval" where
  "assign strict Undefined k x = Inl (TypeError ''Cannot set properties of undefined'')"
| "assign strict Null k x = Inl (TypeError ''Cannot set properties of null'')"
| "assign strict (JObj c f ps) k x =
    (if f then (if strict then Inl (TypeError ''Cannot assign to read only property'')
                else Inr (JObj c f ps))
     else Inr (JObj c f (put k x ps)))"
| "assign strict v k x =
    (if strict then Inl (TypeError ''Cannot create property'') else Inr v)"

fun delete_property :: "bool \<Rightarrow> jsval \<Rightarrow> string \<Rightarrow> error + jsval" where
  "delete_property strict Undefined k = Inl (TypeError ''Cannot convert undefined or null to object'')"
| "delete_property strict Null k = Inl (TypeError ''Cannot convert undefined or null to object'')"
| "delete_property strict (JObj c f ps) k =
    (if f then (if strict \<and> k \<in> fst ` set ps then Inl (TypeError ''Cannot delete property'')
                else Inr (JObj c f ps))
     else Inr (JObj c f (filter (\<lambda>p. fst p \<noteq> k) ps)))"
| "delete_property strict v k = Inr v"

section \<open>What a phase computes\<close>

text \<open>
  The loop of \<^verbatim>\<open>applyHooks\<close> seen from outside: the value and the world it leaves, and
  the hook calls it makes, with the depth counter and the debug lines left out.
\<close>

fun hook_loop ::
  "string \<Rightarrow> jsval \<Rightarrow> jsval \<Rightarrow> 'w hookfn list \<Rightarrow> jsval \<Rightarrow> 'w \<Rightarrow> (error + jsval) \<times> 'w" where
  "hook_loop hookName build context [] v w = (Inr v, w)"
| "hook_loop hookName build context (h # hs) v w =
    (case call h v build context w of
       (Inl e, w') \<Rightarrow> (Inl e, w')
     | (Inr v', w') \<Rightarrow>
        if truthy v' then hook_loop hookName build context hs v' w'
        else (Inl (HookReturnedEmpty
                    (or_else (displayName h) (or_else (name h) ''anonymous'')) hookName), w'))"

fun invocations ::
  "string \<Rightarrow> jsval \<Rightarrow> jsval \<Rightarrow> 'w hookfn list \<Rightarrow> jsval \<Rightarrow> 'w \<Rightarrow> 'a event list" where
  "invocations hookName build context [] v w = []"
| "invocations hookName build context (h # hs) v w =
    Invoked hookName (or_else (displayName h) (or_else (name h) ''anonymous'')) v build context #
    (case call h v build context w of
       (Inl e, w') \<Rightarrow> []
     | (Inr v', w') \<Rightarrow> if truthy v' then invocations hookName build context hs v' w' else [])"

text \<open>
  The words of the specification: the value is threaded through the hooks in order,
  \<open>v\<^sub>i = h\<^sub>i(v\<^sub>i\<^sub>-\<^sub>1, build, context)\<close>; every hook that is called returns a truthy value; and
  the calls one after the other, each on the value threaded so far.
\<close>

fun thread :: "jsval \<Rightarrow> jsval \<Rightarrow> 'w hookfn list \<Rightarrow> jsval \<Rightarrow> 'w \<Rightarrow> (error + jsval) \<times> 'w" where
  "thread build context [] v w = (Inr v, w)"
| "thread build context (h # hs) v w =
    (case call h v build context w of
       (Inl e, w') \<Rightarrow> (Inl e, w')
     | (Inr v', w') \<Rightarrow> thread build context hs v' w')"

fun returns_truthy :: "jsval \<Rightarrow> jsval \<Rightarrow> 'w hookfn list \<Rightarrow> jsval \<Rightarrow> 'w \<Rightarrow> bool" where
  "returns_truthy build context [] v w = True"
| "returns_truthy build context (h # hs) v w =
    (case call h v build context w of
       (Inl e, w') \<Rightarrow> True
     | (Inr v', w') \<Rightarrow> truthy v' \<and> returns_truthy build context hs v' w')"


fun calls_in_order ::
  "string \<Rightarrow> jsval \<Rightarrow> jsval \<Rightarrow> 'w hookfn list \<Rightarrow> jsval \<Rightarrow> 'w \<Rightarrow> 'a event list" where
  "calls_in_order hookName build context [] v w = []"
| "calls_in_order hookName build context (h # hs) v w =
    Invoked hookName (or_else (displayName h) (or_else (name h) ''anonymous'')) v build context #
    (case call h v build context w of
       (Inl e, w') \<Rightarrow> []
     | (Inr v', w') \<Rightarrow> calls_in_order hookName build context hs v' w')"

text \<open>The fields a dispatch leaves alone: all but the world and the two logs.\<close>

definition same_fields :: "('w, 'a) SchemaBuilder \<Rightarrow> ('w, 'a) SchemaBuilder \<Rightarrow> bool" where
  "same_fields s s' =
    (watchers s' = watchers s \<and> unwatchers s' = unwatchers s \<and> depth s' = depth s \<and>
     hooks s' = hooks s \<and> currentPluginName s' = currentPluginName s \<and>
     generatedSchema s' = generatedSchema s \<and> watching s' = watching s \<and>
     explicitSchemaListener s' = explicitSchemaListener s \<and>
     triggerChange s' = triggerChange s \<and> schemaListeners s' = schemaListeners s \<and>
     triggersIssued s' = triggersIssued s)"

text \<open>The number of artifact constructions a trace records.\<close>

fun constructions :: "'a event list \<Rightarrow> nat" where
  "constructions [] = 0"
| "constructions (Constructed b # evs) = Suc (constructions evs)"
| "constructions (e # evs) = constructions evs"

text \<open>
  The fields that neither a build nor a notification touches: those of \<open>same_fields\<close> but
  for the cached artifact.
\<close>

definition same_registry :: "('w, 'a) SchemaBuilder \<Rightarrow> ('w, 'a) SchemaBuilder \<Rightarrow> bool" where
  "same_registry s s' =
    (watchers s' = watchers s \<and> unwatchers s' = unwatchers s \<and> depth s' = depth s \<and>
     hooks s' = hooks s \<and> currentPluginName s' = currentPluginName s \<and>
     watching s' = watching s \<and>
     explicitSchemaListener s' = explicitSchemaListener s \<and>
     triggerChange s' = triggerChange s \<and> schemaListeners s' = schemaListeners s \<and>
     triggersIssued s' = triggersIssued s)"

text \<open>The artifacts a trace records as emitted.\<close>

fun emissions :: "'a event list \<Rightarrow> 'a list" where
  "emissions [] = []"
| "emissions (Emitted a # evs) = a # emissions evs"
| "emissions (e # evs) = emissions evs"

text \<open>A stretch of a trace that holds hook calls only.\<close>

fun hook_calls :: "'a event list \<Rightarrow> bool" where
  "hook_calls [] = True"
| "hook_calls (Invoked P n v b c # evs) = hook_calls evs"
| "hook_calls (e # evs) = False"

text \<open>The calls of listen and unlisten a trace records: position and trigger.\<close>

fun listens :: "'a event list \<Rightarrow> (nat \<times> nat option) list" where
  "listens [] = []"
| "listens (Listened i t # evs) = (i, t) # listens evs"
| "listens (e # evs) = listens evs"

fun unlistens :: "'a event list \<Rightarrow> (nat \<times> nat option) list" where
  "unlistens [] = []"
| "unlistens (Unlistened i t # evs) = (i, t) # unlistens evs"
| "unlistens (e # evs) = unlistens evs"

text \<open>
  Since the trace held \<open>n\<close> constructions, an artifact has been constructed, and the one
  emitted last is the one in the cache.
\<close>

definition rebuilt_since :: "nat \<Rightarrow> ('w, 'a) SchemaBuilder \<Rightarrow> bool" where
  "rebuilt_since n s =
    (n < constructions (trace s) \<and> emissions (trace s) \<noteq> [] \<and>
     generatedSchema s = Some (last (emissions (trace s))))"

section \<open>Sample builders\<close>

definition keep :: "nat hookfn" where
  "keep = \<lparr> displayName = [], name = ''keep'', call = (\<lambda>v b c w. (Inr v, Suc w)) \<rparr>"

definition add_a :: "nat hookfn" where
  "add_a = \<lparr> displayName = [], name = ''add_a'',
            call = (\<lambda>v b c w.
              (case v of JObj cl f ps \<Rightarrow> Inr (JObj cl f (put ''a'' (JNum 1) ps)) | _ \<Rightarrow> Inr v,
               Suc w)) \<rparr>"

definition returns_null :: "nat hookfn" where
  "returns_null = \<lparr> displayName = [], name = ''returns_null'',
                   call = (\<lambda>v b c w. (Inr Null, Suc w)) \<rparr>"

definition fresh :: "(nat, nat) SchemaBuilder" where
  "fresh = new_SchemaBuilder 0"

definition sample_collaborators :: "(nat, nat) collaborators" where
  "sample_collaborators =
    \<lparr> makeNewBuild = JObj False False [(''buildObjectWithHooks'', JObj True False [])],
      bindAll = (\<lambda>b ks. Inr b),
      buildObjectWithHooks = (\<lambda>b w. (Inr w, Suc w)) \<rparr>"

definition eager_watcher :: "nat watcher" where
  "eager_watcher = (\<lambda>trig. [CallTrigger])"

definition quiet_watcher :: "nat watcher" where
  "quiet_watcher = (\<lambda>trig. [Effect (\<lambda>w. (Inr (), w))])"

definition sample_listener :: "(nat, nat) listener" where
  "sample_listener = (\<lambda>a w. (Inr (), w))"

definition with_watcher ::
  "'w watcher \<Rightarrow> 'w watcher \<Rightarrow> ('w, 'a) SchemaBuilder \<Rightarrow> ('w, 'a) SchemaBuilder" where
  "with_watcher listen unlisten s = snd (addWatcher (Some listen) (Some unlisten) s)"



section \<open>Lemmas\<close>

lemmas sample_defs =
  register_def keep_def add_a_def returns_null_def fresh_def new_SchemaBuilder_def
  phase_names_def hook_def hooks_get_def or_else_def Object_prototype_names_def

subsection \<open>A dispatch and the loop it runs\<close>

text \<open>
  At a depth of at least -1 the indentation of the debug lines never fails, and a
  dispatch is the loop \<open>hook_loop\<close> on the world, with the calls \<open>invocations\<close>
  added to the trace and every other field kept.
\<close>

lemma hook_step_char:
  assumes "0 \<le> depth s"
  shows "fst (hook_step b P c dbg h v s) =
           (case fst (call h v b c (world s)) of
              Inl e \<Rightarrow> Inl e
            | Inr v' \<Rightarrow>
               if truthy v' then Inr v'
               else Inl (HookReturnedEmpty
                          (or_else (displayName h) (or_else (name h) ''anonymous'')) P))"
    and "world (snd (hook_step b P c dbg h v s)) = snd (call h v b c (world s))"
    and "trace (snd (hook_step b P c dbg h v s)) =
           trace s @ [Invoked P (or_else (displayName h) (or_else (name h) ''anonymous'')) v b c]"
    and "same_fields s (snd (hook_step b P c dbg h v s))"
  using assms
  by (simp_all add: hook_step_def Let_def repeat_def debug_def same_fields_def
      split: sum.splits)

lemma for_hooks_char:
  "0 \<le> depth s + 1 \<Longrightarrow>
     fst (for_hooks b P c dbg hs v s) = fst (hook_loop P b c hs v (world s)) \<and>
     world (snd (for_hooks b P c dbg hs v s)) = snd (hook_loop P b c hs v (world s)) \<and>
     trace (snd (for_hooks b P c dbg hs v s)) = trace s @ invocations P b c hs v (world s) \<and>
     same_fields s (snd (for_hooks b P c dbg hs v s))"
proof (induction hs arbitrary: v s)
  case Nil
  then show ?case by (simp add: same_fields_def)
next
  case (Cons h hs)
  let ?s0 = "s\<lparr>depth := depth s + 1\<rparr>"
  let ?st = "hook_step b P c dbg h v ?s0"
  let ?n = "or_else (displayName h) (or_else (name h) ''anonymous'')"
  from Cons.prems have d0: "0 \<le> depth ?s0" by simp
  note hs = hook_step_char[OF d0, of b P c dbg h v]
  obtain r w' where cw: "call h v b c (world s) = (r, w')" by (cases "call h v b c (world s)")
  have sf: "same_fields ?s0 (snd ?st)" by (rule hs(4))
  have w: "world (snd ?st) = w'" using hs(2) cw by simp
  have t: "trace (snd ?st) = trace s @ [Invoked P ?n v b c]" using hs(3) by simp
  show ?case
  proof (cases "\<exists>v'. r = Inr v' \<and> truthy v'")
    case True
    then obtain v' where r: "r = Inr v'" and tr: "truthy v'" by blast
    have f: "fst ?st = Inr v'" using hs(1) cw r tr by simp
    let ?s2 = "(snd ?st)\<lparr>depth := depth (snd ?st) - 1\<rparr>"
    have eq: "for_hooks b P c dbg (h # hs) v s = for_hooks b P c dbg hs v' ?s2"
      using f by (cases ?st) simp
    have d2: "0 \<le> depth ?s2 + 1" using sf Cons.prems by (simp add: same_fields_def)
    have sf2: "same_fields s ?s2" using sf by (simp add: same_fields_def)
    from Cons.IH[OF d2, of v'] show ?thesis
      unfolding eq using cw r tr w t sf2 by (simp add: same_fields_def)
  next
    case False
    then obtain e where f: "fst ?st = Inl e"
      using hs(1) cw by (cases r) auto
    have eq: "for_hooks b P c dbg (h # hs) v s = (Inl e, (snd ?st)\<lparr>depth := depth (snd ?st) - 1\<rparr>)"
      using f by (cases ?st) simp
    show ?thesis
      unfolding eq using False f hs(1) cw w t sf
      by (cases r) (auto simp add: same_fields_def)
  qed
qed

lemma applyHooks_char:
  assumes "- 1 \<le> depth s" and "hooks s P = Some hs"
  shows "fst (applyHooks b P v c dbg s) = fst (hook_loop P b c hs v (world s))"
    and "world (snd (applyHooks b P v c dbg s)) = snd (hook_loop P b c hs v (world s))"
    and "trace (snd (applyHooks b P v c dbg s)) = trace s @ invocations P b c hs v (world s)"
    and "same_fields s (snd (applyHooks b P v c dbg s))"
proof -
  let ?s1 = "debug (concat (replicate (nat (depth s + 1)) INDENT) @
                   ''['' @ P @ dbg @ '']: Running...'') (s\<lparr>depth := depth s + 1\<rparr>)"
  have d1: "0 \<le> depth ?s1 + 1" using assms(1) by (simp add: debug_def)
  note fh = for_hooks_char[OF d1, of b P c dbg hs v]
  have w1: "world ?s1 = world s" "trace ?s1 = trace s" by (simp_all add: debug_def)
  have sf1: "same_fields (s\<lparr>depth := depth s + 1\<rparr>) ?s1" by (simp add: same_fields_def debug_def)
  let ?fh = "for_hooks b P c dbg hs v ?s1"
  have d2: "depth (snd ?fh) = depth s + 1"
    using fh sf1 by (simp add: same_fields_def)
  have ah: "applyHooks b P v c dbg s =
     (fst ?fh,
      (if isl (fst ?fh) then snd ?fh
       else debug (concat (replicate (nat (depth s + 1)) INDENT) @
                   ''['' @ P @ dbg @ '']: Complete'') (snd ?fh))\<lparr>depth := depth s\<rparr>)"
  proof (cases ?fh)
    case (Pair r s2)
    with d2 have "depth s2 = depth s + 1" by simp
    with Pair assms show ?thesis
      by (cases r) (simp_all add: applyHooks_def Let_def repeat_def hooks_get_def debug_def)
  qed
  show "fst (applyHooks b P v c dbg s) = fst (hook_loop P b c hs v (world s))"
    unfolding ah using fh w1 by simp
  show "world (snd (applyHooks b P v c dbg s)) = snd (hook_loop P b c hs v (world s))"
    unfolding ah using fh w1 by (simp add: debug_def)
  show "trace (snd (applyHooks b P v c dbg s)) = trace s @ invocations P b c hs v (world s)"
    unfolding ah using fh w1 by (simp add: debug_def)
  show "same_fields s (snd (applyHooks b P v c dbg s))"
    unfolding ah using fh sf1 by (simp add: debug_def same_fields_def)
qed


subsection \<open>The loop and the threading of the specification\<close>



lemma calls_in_order_length:
  "thread b c hs v w = (Inr u, w1) \<Longrightarrow> length (calls_in_order P b c hs v w) = length hs"
  by (induction hs arbitrary: v w) (auto split: prod.splits sum.splits)

lemma hook_loop_falsy:
  "thread b c pre v w = (Inr u, w1) \<Longrightarrow> returns_truthy b c pre v w \<Longrightarrow>
   call h u b c w1 = (Inr r, w2) \<Longrightarrow> \<not> truthy r \<Longrightarrow>
     hook_loop P b c (pre @ h # post) v w =
       (Inl (HookReturnedEmpty (or_else (displayName h) (or_else (name h) ''anonymous'')) P), w2)"
  by (induction pre arbitrary: v w) (auto split: prod.splits sum.splits)

lemma invocations_falsy:
  "thread b c pre v w = (Inr u, w1) \<Longrightarrow> returns_truthy b c pre v w \<Longrightarrow>
   call h u b c w1 = (Inr r, w2) \<Longrightarrow> \<not> truthy r \<Longrightarrow>
     invocations P b c (pre @ h # post) v w =
       calls_in_order P b c pre v w @
       [Invoked P (or_else (displayName h) (or_else (name h) ''anonymous'')) u b c]"
  by (induction pre arbitrary: v w) (auto split: prod.splits sum.splits)

subsection \<open>Undeclared names\<close>

lemma hook_unknown_phase:
  "hooks s n = None \<Longrightarrow> n \<notin> set Object_prototype_names \<Longrightarrow>
     hook n fn s = (Inl (UnknownPhase n), s)"
  by (simp add: hook_def hooks_get_def)

lemma applyHooks_unknown_phase:
  assumes "hooks s n = None" and "n \<notin> set Object_prototype_names" and "- 1 \<le> depth s"
  shows "fst (applyHooks b n v c dbg s) = Inl (UnknownPhase n)"
    and "world (snd (applyHooks b n v c dbg s)) = world s"
    and "trace (snd (applyHooks b n v c dbg s)) = trace s"
    and "same_fields s (snd (applyHooks b n v c dbg s))"
  using assms
  by (simp_all add: applyHooks_def hooks_get_def Let_def repeat_def debug_def same_fields_def)


subsection \<open>What a build adds to the trace\<close>

lemma constructions_append: "constructions (xs @ ys) = constructions xs + constructions ys"
  by (induction xs rule: constructions.induct) simp_all

lemma emissions_append: "emissions (xs @ ys) = emissions xs @ emissions ys"
  by (induction xs rule: emissions.induct) simp_all

lemma listens_append: "listens (xs @ ys) = listens xs @ listens ys"
  by (induction xs rule: listens.induct) simp_all

lemma unlistens_append: "unlistens (xs @ ys) = unlistens xs @ unlistens ys"
  by (induction xs rule: unlistens.induct) simp_all

lemma hook_calls_append: "hook_calls (xs @ ys) = (hook_calls xs \<and> hook_calls ys)"
  by (induction xs rule: hook_calls.induct) simp_all

lemma hook_calls_constructions: "hook_calls evs \<Longrightarrow> constructions evs = 0"
  by (induction evs rule: hook_calls.induct) simp_all

lemma hook_calls_emissions: "hook_calls evs \<Longrightarrow> emissions evs = []"
  by (induction evs rule: hook_calls.induct) simp_all

lemma hook_calls_listens: "hook_calls evs \<Longrightarrow> listens evs = []"
  by (induction evs rule: hook_calls.induct) simp_all

lemma hook_calls_unlistens: "hook_calls evs \<Longrightarrow> unlistens evs = []"
  by (induction evs rule: hook_calls.induct) simp_all

lemma hook_step_grows:
  "\<exists>evs. trace (snd (hook_step b P c dbg h v s)) = trace s @ evs \<and> hook_calls evs"
  by (simp add: hook_step_def Let_def repeat_def debug_def split: sum.splits)

lemma for_hooks_grows:
  "\<exists>evs. trace (snd (for_hooks b P c dbg hs v s)) = trace s @ evs \<and> hook_calls evs"
proof (induction hs arbitrary: v s)
  case Nil
  show ?case by simp
next
  case (Cons h hs)
  let ?st = "hook_step b P c dbg h v (s\<lparr>depth := depth s + 1\<rparr>)"
  obtain r s1 where st: "?st = (r, s1)" by (cases ?st)
  from hook_step_grows[of b P c dbg h v "s\<lparr>depth := depth s + 1\<rparr>"] st
  obtain e1 where e1: "trace s1 = trace s @ e1" "hook_calls e1" by auto
  show ?case
  proof (cases r)
    case (Inl e)
    with st e1 show ?thesis by simp
  next
    case (Inr v')
    from Cons.IH[of v' "s1\<lparr>depth := depth s1 - 1\<rparr>"] obtain e2 where
      "trace (snd (for_hooks b P c dbg hs v' (s1\<lparr>depth := depth s1 - 1\<rparr>))) = trace s1 @ e2"
      "hook_calls e2" by auto
    with st Inr e1 show ?thesis by (simp add: hook_calls_append)
  qed
qed

lemma applyHooks_grows:
  fixes s :: "('w, 'a) SchemaBuilder"
  shows "\<exists>evs. trace (snd (applyHooks b P v c dbg s)) = trace s @ evs \<and> hook_calls evs"
proof -
  have "\<And>s1 :: ('w, 'a) SchemaBuilder. trace s1 = trace s \<Longrightarrow>
     \<exists>evs. trace (snd (for_hooks b P c dbg hs v s1)) = trace s @ evs \<and> hook_calls evs"
    for hs :: "'w hookfn list"
    using for_hooks_grows[of b P c dbg hs v] by metis
  note fh = this
  show ?thesis
  proof (cases "repeat INDENT (depth s + 1)")
    case (Inl e)
    then show ?thesis by (simp add: applyHooks_def Let_def)
  next
    case (Inr ind)
    let ?s1 = "debug (ind @ ''['' @ P @ dbg @ '']: Running...'') (s\<lparr>depth := depth s + 1\<rparr>)"
    have t1: "trace ?s1 = trace s" by (simp add: debug_def)
    show ?thesis
    proof (cases "hooks_get (hooks s) P")
      case NoProperty
      with Inr show ?thesis by (simp add: applyHooks_def Let_def debug_def)
    next
      case Inherited
      with Inr show ?thesis by (simp add: applyHooks_def Let_def debug_def)
    next
      case (HookArray hs)
      obtain r s2 where f: "for_hooks b P c dbg hs v ?s1 = (r, s2)"
        by (cases "for_hooks b P c dbg hs v ?s1")
      from fh[OF t1, of hs] f obtain evs where
        "trace s2 = trace s @ evs" "hook_calls evs" by auto
      with Inr HookArray f show ?thesis
        by (auto simp add: applyHooks_def Let_def debug_def split: sum.splits)
    qed
  qed
qed

subsection \<open>createBuild\<close>

lemma createBuild_Inr_cases:
  assumes "createBuild env s = (Inr b, s')"
  obtains build s1 ks bound v where
    "applyHooks Null ''build'' (makeNewBuild env) Undefined [] s = (Inr build, s1)"
    "function_keys build = Inr ks" "bindAll env build ks = Inr bound"
    "b = Object_freeze bound"
    "applyHooks b ''init'' (JObj False False []) Undefined [] s1 = (Inr v, s')"
  using assms unfolding createBuild_def
  by (auto split: prod.splits sum.splits simp: Let_def)

lemma createBuild_snd:
  assumes "applyHooks Null ''build'' (makeNewBuild env) Undefined [] s = (r1, s1)"
  shows "snd (createBuild env s) = s1 \<or>
         (\<exists>b. snd (createBuild env s) =
                snd (applyHooks b ''init'' (JObj False False []) Undefined [] s1))"
proof (cases r1)
  case (Inl e)
  with assms show ?thesis by (simp add: createBuild_def)
next
  case (Inr build)
  show ?thesis
  proof (cases "function_keys build")
    case (Inl e)
    with assms Inr show ?thesis by (simp add: createBuild_def)
  next
    case ks: (Inr ks)
    show ?thesis
    proof (cases "bindAll env build ks")
      case (Inl e)
      with assms Inr ks show ?thesis by (simp add: createBuild_def)
    next
      case bd: (Inr bound)
      let ?ah = "applyHooks (Object_freeze bound) ''init'' (JObj False False []) Undefined [] s1"
      have "snd (createBuild env s) = snd ?ah"
        using assms Inr ks bd
        by (cases ?ah) (simp add: createBuild_def Let_def split: sum.splits)
      then show ?thesis by blast
    qed
  qed
qed

lemma createBuild_grows:
  "\<exists>evs. trace (snd (createBuild env s)) = trace s @ evs \<and> hook_calls evs"
proof -
  obtain r1 s1 where a1: "applyHooks Null ''build'' (makeNewBuild env) Undefined [] s = (r1, s1)"
    by (cases "applyHooks Null ''build'' (makeNewBuild env) Undefined [] s")
  from applyHooks_grows[of Null "''build''" "makeNewBuild env" Undefined "[]" s] a1
  obtain e1 where e1: "trace s1 = trace s @ e1" "hook_calls e1" by auto
  from createBuild_snd[OF a1] show ?thesis
  proof
    assume "snd (createBuild env s) = s1"
    with e1 show ?thesis by simp
  next
    assume "\<exists>b. snd (createBuild env s) =
                snd (applyHooks b ''init'' (JObj False False []) Undefined [] s1)"
    then obtain b where b: "snd (createBuild env s) =
                snd (applyHooks b ''init'' (JObj False False []) Undefined [] s1)" ..
    from applyHooks_grows[of b "''init''" "JObj False False []" Undefined "[]" s1]
    obtain e2 where "trace (snd (applyHooks b ''init'' (JObj False False []) Undefined [] s1)) =
       trace s1 @ e2" "hook_calls e2" by auto
    with b e1 show ?thesis by (simp add: hook_calls_append)
  qed
qed

lemma createBuild_build_phase:
  assumes "- 1 \<le> depth s" and "hooks s ''build'' = Some hsb"
  shows "\<exists>rest. trace (snd (createBuild env s)) =
           trace s @ invocations ''build'' Null Undefined hsb (makeNewBuild env) (world s) @ rest"
proof -
  obtain r1 s1 where a1: "applyHooks Null ''build'' (makeNewBuild env) Undefined [] s = (r1, s1)"
    by (cases "applyHooks Null ''build'' (makeNewBuild env) Undefined [] s")
  from applyHooks_char(3)[OF assms, of Null "makeNewBuild env" Undefined "[]"] a1
  have t1: "trace s1 =
      trace s @ invocations ''build'' Null Undefined hsb (makeNewBuild env) (world s)" by simp
  from createBuild_snd[OF a1] show ?thesis
  proof
    assume "snd (createBuild env s) = s1"
    with t1 show ?thesis by simp
  next
    assume "\<exists>b. snd (createBuild env s) =
                snd (applyHooks b ''init'' (JObj False False []) Undefined [] s1)"
    then obtain b where b: "snd (createBuild env s) =
                snd (applyHooks b ''init'' (JObj False False []) Undefined [] s1)" ..
    from applyHooks_grows[of b "''init''" "JObj False False []" Undefined "[]" s1]
    obtain e2 where "trace (snd (applyHooks b ''init'' (JObj False False []) Undefined [] s1)) =
       trace s1 @ e2" by auto
    with b t1 show ?thesis by simp
  qed
qed

lemma Object_freeze_frozen: "Object_isFrozen (Object_freeze v)"
  by (cases v) simp_all

lemma frozen_assign: "Object_isFrozen b \<Longrightarrow> assign strict b k x = Inr b' \<Longrightarrow> b' = b"
  by (cases b) (auto split: if_splits)

lemma frozen_delete: "Object_isFrozen b \<Longrightarrow> delete_property strict b k = Inr b' \<Longrightarrow> b' = b"
  by (cases b) (auto split: if_splits)

lemma createBuild_fst_Inr:
  assumes "fst (createBuild env s) = Inr b"
  obtains build s1 ks bound where
    "applyHooks Null ''build'' (makeNewBuild env) Undefined [] s = (Inr build, s1)"
    "function_keys build = Inr ks" "bindAll env build ks = Inr bound"
    "b = Object_freeze bound"
    "snd (createBuild env s) = snd (applyHooks b ''init'' (JObj False False []) Undefined [] s1)"
proof -
  obtain s' where "createBuild env s = (Inr b, s')"
    using assms by (cases "createBuild env s") simp
  from createBuild_Inr_cases[OF this] show ?thesis
    using that by (metis \<open>createBuild env s = (Inr b, s')\<close> snd_conv)
qed

lemma createBuild_build_fails:
  fixes s :: "('w, 'a) SchemaBuilder"
  assumes "- 1 \<le> depth s" and "hooks s ''build'' = Some hsb"
    and "fst (hook_loop ''build'' Null Undefined hsb (makeNewBuild env) (world s)) = Inl e"
  shows "fst (createBuild env s) = Inl e"
proof -
  note c1 = applyHooks_char[OF assms(1,2), of Null "makeNewBuild env" Undefined "[]"]
  from assms(3) c1(1) have
    "fst (applyHooks Null ''build'' (makeNewBuild env) Undefined [] s) = Inl e"
    by simp
  then show ?thesis
    by (cases "applyHooks Null ''build'' (makeNewBuild env) Undefined [] s")
       (simp add: createBuild_def)
qed

lemma createBuild_result:
  fixes s :: "('w, 'a) SchemaBuilder"
  assumes "- 1 \<le> depth s" and "hooks s ''build'' = Some hsb"
    and "fst (createBuild env s) = Inr b"
  shows "\<exists>v ks bound.
           fst (hook_loop ''build'' Null Undefined hsb (makeNewBuild env) (world s)) = Inr v \<and>
           function_keys v = Inr ks \<and> bindAll env v ks = Inr bound \<and>
           b = Object_freeze bound"
proof -
  note c1 = applyHooks_char[OF assms(1,2), of Null "makeNewBuild env" Undefined "[]"]
  show ?thesis
  proof (rule createBuild_fst_Inr[OF assms(3)])
    fix build s1 ks bound
    assume a1: "applyHooks Null ''build'' (makeNewBuild env) Undefined [] s = (Inr build, s1)"
      and r: "function_keys build = Inr ks" "bindAll env build ks = Inr bound"
         "b = Object_freeze bound"
    from a1 c1(1) have
      "fst (hook_loop ''build'' Null Undefined hsb (makeNewBuild env) (world s)) = Inr build"
      by simp
    with r show ?thesis by (intro exI[of _ build] exI[of _ ks] exI[of _ bound]) simp
  qed
qed

lemma createBuild_trace_Inr:
  fixes s :: "('w, 'a) SchemaBuilder"
  assumes "- 1 \<le> depth s" and "hooks s ''build'' = Some hsb"
    and "hooks s ''init'' = Some hsi" and "fst (createBuild env s) = Inr b"
  shows "trace (snd (createBuild env s)) =
           trace s @
           invocations ''build'' Null Undefined hsb (makeNewBuild env) (world s) @
           invocations ''init'' b Undefined hsi (JObj False False [])
             (snd (hook_loop ''build'' Null Undefined hsb (makeNewBuild env) (world s)))"
    and "world (snd (createBuild env s)) =
           snd (hook_loop ''init'' b Undefined hsi (JObj False False [])
             (snd (hook_loop ''build'' Null Undefined hsb (makeNewBuild env) (world s))))"
proof -
  from createBuild_fst_Inr[OF assms(4)] obtain build s1 ks bound where
    a1: "applyHooks Null ''build'' (makeNewBuild env) Undefined [] s = (Inr build, s1)" and
    ks: "function_keys build = Inr ks" "bindAll env build ks = Inr bound" and
    b: "b = Object_freeze bound" and
    s': "snd (createBuild env s) =
           snd (applyHooks b ''init'' (JObj False False []) Undefined [] s1)"
    by blast
  note c1 = applyHooks_char[OF assms(1,2), of Null "makeNewBuild env" Undefined "[]"]
  have w1: "world s1 = snd (hook_loop ''build'' Null Undefined hsb (makeNewBuild env) (world s))"
    and t1: "trace s1 =
      trace s @ invocations ''build'' Null Undefined hsb (makeNewBuild env) (world s)"
    and sf: "same_fields s s1"
    using c1 a1 by simp_all
  have d1: "- 1 \<le> depth s1" and h1: "hooks s1 ''init'' = Some hsi"
    using sf assms(1,3) by (simp_all add: same_fields_def)
  note c2 = applyHooks_char[OF d1 h1, of b "JObj False False []" Undefined "[]"]
  show "trace (snd (createBuild env s)) =
           trace s @
           invocations ''build'' Null Undefined hsb (makeNewBuild env) (world s) @
           invocations ''init'' b Undefined hsi (JObj False False [])
             (snd (hook_loop ''build'' Null Undefined hsb (makeNewBuild env) (world s)))"
    unfolding s' using c2(3) t1 w1 by simp
  show "world (snd (createBuild env s)) =
           snd (hook_loop ''init'' b Undefined hsi (JObj False False [])
             (snd (hook_loop ''build'' Null Undefined hsb (makeNewBuild env) (world s))))"
    unfolding s' using c2(2) w1 by simp
qed

lemma createBuild_fst:
  fixes s :: "('w, 'a) SchemaBuilder"
  assumes "- 1 \<le> depth s" and "hooks s ''build'' = Some hsb"
    and "hooks s ''init'' = Some hsi"
  shows "fst (createBuild env s) =
    (case fst (hook_loop ''build'' Null Undefined hsb (makeNewBuild env) (world s)) of
       Inl e \<Rightarrow> Inl e
     | Inr v \<Rightarrow>
        (case function_keys v of
           Inl e \<Rightarrow> Inl e
         | Inr ks \<Rightarrow>
            (case bindAll env v ks of
               Inl e \<Rightarrow> Inl e
             | Inr bound \<Rightarrow>
                (case fst (hook_loop ''init'' (Object_freeze bound) Undefined hsi
                            (JObj False False [])
                            (snd (hook_loop ''build'' Null Undefined hsb (makeNewBuild env)
                                   (world s)))) of
                   Inl e \<Rightarrow> Inl e
                 | Inr x \<Rightarrow> Inr (Object_freeze bound)))))"
proof -
  let ?hl = "hook_loop ''build'' Null Undefined hsb (makeNewBuild env) (world s)"
  obtain r1 s1 where a1: "applyHooks Null ''build'' (makeNewBuild env) Undefined [] s = (r1, s1)"
    by (cases "applyHooks Null ''build'' (makeNewBuild env) Undefined [] s")
  note c1 = applyHooks_char[OF assms(1,2), of Null "makeNewBuild env" Undefined "[]"]
  have r1: "fst ?hl = r1" and w1: "world s1 = snd ?hl" and sf: "same_fields s s1"
    using c1 a1 by simp_all
  have d1: "- 1 \<le> depth s1" and h1: "hooks s1 ''init'' = Some hsi"
    using sf assms(1,3) by (simp_all add: same_fields_def)
  show ?thesis
  proof (cases r1)
    case (Inl e)
    with a1 r1 show ?thesis by (simp add: createBuild_def)
  next
    case (Inr v)
    show ?thesis
    proof (cases "function_keys v")
      case (Inl e)
      with a1 r1 Inr show ?thesis by (simp add: createBuild_def)
    next
      case ks: (Inr ks)
      show ?thesis
      proof (cases "bindAll env v ks")
        case (Inl e)
        with a1 r1 Inr ks show ?thesis by (simp add: createBuild_def)
      next
        case bd: (Inr bound)
        let ?ah = "applyHooks (Object_freeze bound) ''init'' (JObj False False []) Undefined [] s1"
        from applyHooks_char(1)[OF d1 h1, of "Object_freeze bound" "JObj False False []"
            Undefined "[]"] w1
        have f2: "fst ?ah =
            fst (hook_loop ''init'' (Object_freeze bound) Undefined hsi (JObj False False [])
                  (snd ?hl))" by simp
        have "fst (createBuild env s) =
            (case fst ?ah of Inl e \<Rightarrow> Inl e | Inr x \<Rightarrow> Inr (Object_freeze bound))"
          using a1 Inr ks bd
          by (cases ?ah) (simp add: createBuild_def Let_def split: sum.splits)
        then show ?thesis
          using r1 Inr ks bd f2 by simp
      qed
    qed
  qed
qed

subsection \<open>buildSchema and the trigger\<close>

lemma buildSchema_cached: "generatedSchema s = Some a \<Longrightarrow> buildSchema env s = (Inr a, s)"
  by (simp add: buildSchema_def)

lemma buildSchema_fst_Inr:
  assumes "fst (buildSchema env s) = Inr a"
  shows "generatedSchema (snd (buildSchema env s)) = Some a"
  using assms
  by (auto simp add: buildSchema_def Let_def split: option.splits prod.splits sum.splits)

lemma buildSchema_rebuild:
  assumes "generatedSchema s = None" and "fst (buildSchema env s) = Inr a"
  shows "\<exists>b. fst (createBuild env s) = Inr b \<and>
             trace (snd (buildSchema env s)) = trace (snd (createBuild env s)) @ [Constructed b]"
  using assms
  by (auto simp add: buildSchema_def Let_def split: option.splits prod.splits sum.splits)

lemma buildSchema_rebuild_constructions:
  assumes "generatedSchema s = None" and "fst (buildSchema env s) = Inr a"
  shows "constructions (trace (snd (buildSchema env s))) = Suc (constructions (trace s))"
proof -
  from buildSchema_rebuild[OF assms] obtain b where
    t: "trace (snd (buildSchema env s)) = trace (snd (createBuild env s)) @ [Constructed b]"
    by blast
  from createBuild_grows[of env s] obtain evs where
    "trace (snd (createBuild env s)) = trace s @ evs" "hook_calls evs" by blast
  with t show ?thesis by (simp add: constructions_append hook_calls_constructions)
qed

lemma emit_schema_trace: "trace (snd (emit_schema a s)) = trace s @ [Emitted a]"
  by (simp add: emit_schema_def Let_def)

lemma triggerChange_body_constructions:
  assumes "fst (buildSchema env (t\<lparr>generatedSchema := None\<rparr>)) = Inr a"
  shows "constructions (trace (snd (triggerChange_body env t))) = Suc (constructions (trace t))"
proof -
  let ?bs = "buildSchema env (t\<lparr>generatedSchema := None\<rparr>)"
  have "triggerChange_body env t = emit_schema a (snd ?bs)"
    using assms by (cases ?bs) (simp add: triggerChange_body_def)
  then show ?thesis
    using buildSchema_rebuild_constructions[OF _ assms]
    by (simp add: emit_schema_trace constructions_append)
qed

lemma buildSchema_build_phase:
  assumes "- 1 \<le> depth s" and "hooks s ''build'' = Some hsb" and "generatedSchema s = None"
  shows "\<exists>rest. trace (snd (buildSchema env s)) =
           trace s @ invocations ''build'' Null Undefined hsb (makeNewBuild env) (world s) @ rest"
proof -
  from createBuild_build_phase[OF assms(1,2), of env] obtain r1 where
    r1: "trace (snd (createBuild env s)) =
           trace s @ invocations ''build'' Null Undefined hsb (makeNewBuild env) (world s) @ r1"
    by blast
  obtain r s1 where cb: "createBuild env s = (r, s1)" by (cases "createBuild env s")
  show ?thesis
  proof (cases r)
    case (Inl e)
    with cb r1 assms(3) show ?thesis by (simp add: buildSchema_def)
  next
    case (Inr b)
    with cb r1 assms(3) show ?thesis
      by (simp add: buildSchema_def Let_def split: sum.splits)
  qed
qed

lemma triggerChange_body_build_phase:
  assumes "- 1 \<le> depth s" and "hooks s ''build'' = Some hsb"
  shows "\<exists>rest. trace (snd (triggerChange_body env s)) =
           trace s @ invocations ''build'' Null Undefined hsb (makeNewBuild env) (world s) @ rest"
proof -
  let ?s0 = "s\<lparr>generatedSchema := None\<rparr>"
  have "- 1 \<le> depth ?s0" "hooks ?s0 ''build'' = Some hsb" "generatedSchema ?s0 = None"
    using assms by simp_all
  from buildSchema_build_phase[OF this, of env] obtain r1 where
    r1: "trace (snd (buildSchema env ?s0)) =
           trace s @ invocations ''build'' Null Undefined hsb (makeNewBuild env) (world s) @ r1"
    by auto
  obtain r s1 where bs: "buildSchema env ?s0 = (r, s1)" by (cases "buildSchema env ?s0")
  show ?thesis
  proof (cases r)
    case (Inl e)
    with bs r1 show ?thesis by (simp add: triggerChange_body_def)
  next
    case (Inr a)
    with bs r1 show ?thesis by (simp add: triggerChange_body_def emit_schema_trace)
  qed
qed

subsection \<open>Watching\<close>

lemmas run_defs =
  sample_collaborators_def buildSchema_def triggerChange_body_def emit_schema_def
  createBuild_def applyHooks_def hook_step_def repeat_def debug_def Let_def
  watchSchema_def watch_begin_def unwatchSchema_def on_schema_def addWatcher_def
  with_watcher_def eager_watcher_def quiet_watcher_def sample_listener_def

lemma subscribe_append:
  "subscribe env i (pre @ rest) s =
    (case subscribe env i pre s of
       (Inl e, s') \<Rightarrow> (Inl e, s')
     | (Inr u, s') \<Rightarrow> subscribe env (i + length pre) rest s')"
  by (induction pre arbitrary: i s) (auto simp add: Let_def split: prod.splits sum.splits)

lemma watchers_watch_begin: "watchers (watch_begin listener s) = watchers s"
  by (simp add: watch_begin_def Let_def on_schema_def split: option.splits)

lemma run_callback_stays_changed: "fst (snd (run_callback env trig as True s))"
  by (induction env trig as "True" s rule: run_callback.induct)
     (auto split: prod.splits sum.splits option.splits)

lemma run_callback_CallTrigger:
  "fst (snd (run_callback env (Some t) (CallTrigger # as) changed s))"
  using run_callback_stays_changed
  by (auto split: prod.splits sum.splits)


subsection \<open>The fields that builds and notifications keep\<close>

text \<open>
  With no condition on the state: a dispatch restores the depth on every path, and
  neither a build nor a notification touches the registry, the watchers or the watch
  state.
\<close>

lemma same_fields_trans: "same_fields s t \<Longrightarrow> same_fields t u \<Longrightarrow> same_fields s u"
  by (simp add: same_fields_def)

lemma same_registry_trans:
  "same_registry s t \<Longrightarrow> same_registry t u \<Longrightarrow> same_registry s u"
  by (simp add: same_registry_def)

lemma same_fields_registry: "same_fields s t \<Longrightarrow> same_registry s t"
  by (simp add: same_fields_def same_registry_def)

lemma hook_step_frame: "same_fields s (snd (hook_step b P c dbg h v s))"
  by (simp add: hook_step_def Let_def repeat_def debug_def same_fields_def split: sum.splits)

lemma for_hooks_frame: "same_fields s (snd (for_hooks b P c dbg hs v s))"
proof (induction hs arbitrary: v s)
  case Nil
  show ?case by (simp add: same_fields_def)
next
  case (Cons h hs)
  let ?st = "hook_step b P c dbg h v (s\<lparr>depth := depth s + 1\<rparr>)"
  obtain r s1 where st: "?st = (r, s1)" by (cases ?st)
  from hook_step_frame[of "s\<lparr>depth := depth s + 1\<rparr>" b P c dbg h v] st
  have f1: "same_fields s (s1\<lparr>depth := depth s1 - 1\<rparr>)"
    by (simp add: same_fields_def)
  show ?case
  proof (cases r)
    case (Inl e)
    with st f1 show ?thesis by simp
  next
    case (Inr v')
    from same_fields_trans[OF f1 Cons.IH[of "s1\<lparr>depth := depth s1 - 1\<rparr>" v']]
    show ?thesis using st Inr by simp
  qed
qed

lemma applyHooks_frame: "same_fields s (snd (applyHooks b P v c dbg s))"
proof (cases "repeat INDENT (depth s + 1)")
  case (Inl e)
  then show ?thesis by (simp add: applyHooks_def Let_def same_fields_def)
next
  case (Inr ind)
  let ?s1 = "debug (ind @ ''['' @ P @ dbg @ '']: Running...'') (s\<lparr>depth := depth s + 1\<rparr>)"
  show ?thesis
  proof (cases "hooks_get (hooks s) P")
    case NoProperty
    with Inr show ?thesis by (simp add: applyHooks_def Let_def debug_def same_fields_def)
  next
    case Inherited
    with Inr show ?thesis by (simp add: applyHooks_def Let_def debug_def same_fields_def)
  next
    case (HookArray hs)
    obtain r s2 where f: "for_hooks b P c dbg hs v ?s1 = (r, s2)"
      by (cases "for_hooks b P c dbg hs v ?s1")
    from for_hooks_frame[of ?s1 b P c dbg hs v] f
    have "same_fields s (s2\<lparr>depth := depth s2 - 1\<rparr>)"
      by (simp add: same_fields_def debug_def)
    with Inr HookArray f show ?thesis
      by (auto simp add: applyHooks_def Let_def debug_def same_fields_def split: sum.splits)
  qed
qed

lemma createBuild_frame: "same_fields s (snd (createBuild env s))"
proof -
  obtain r1 s1 where a1: "applyHooks Null ''build'' (makeNewBuild env) Undefined [] s = (r1, s1)"
    by (cases "applyHooks Null ''build'' (makeNewBuild env) Undefined [] s")
  from applyHooks_frame[of s Null "''build''" "makeNewBuild env" Undefined "[]"] a1
  have f1: "same_fields s s1" by simp
  from createBuild_snd[OF a1] show ?thesis
  proof
    assume "snd (createBuild env s) = s1"
    with f1 show ?thesis by simp
  next
    assume "\<exists>b. snd (createBuild env s) =
                snd (applyHooks b ''init'' (JObj False False []) Undefined [] s1)"
    then obtain b where b: "snd (createBuild env s) =
                snd (applyHooks b ''init'' (JObj False False []) Undefined [] s1)" ..
    show ?thesis
      unfolding b by (rule same_fields_trans[OF f1 applyHooks_frame])
  qed
qed

lemma buildSchema_frame: "same_registry s (snd (buildSchema env s))"
proof (cases "generatedSchema s")
  case (Some a)
  then show ?thesis by (simp add: buildSchema_def same_registry_def)
next
  case None
  obtain r s1 where cb: "createBuild env s = (r, s1)" by (cases "createBuild env s")
  from createBuild_frame[of s env] cb have "same_registry s s1"
    by (simp add: same_fields_registry)
  with None cb show ?thesis
    by (cases r) (simp_all add: buildSchema_def Let_def same_registry_def split: sum.splits)
qed

lemma emit_schema_frame: "same_fields s (snd (emit_schema a s))"
  by (simp add: emit_schema_def Let_def same_fields_def)

lemma triggerChange_body_frame: "same_registry s (snd (triggerChange_body env s))"
proof -
  let ?s0 = "s\<lparr>generatedSchema := None\<rparr>"
  obtain r s1 where bs: "buildSchema env ?s0 = (r, s1)" by (cases "buildSchema env ?s0")
  from buildSchema_frame[of ?s0 env] bs have f: "same_registry s s1"
    by (simp add: same_registry_def)
  show ?thesis
  proof (cases r)
    case (Inl e)
    with bs f show ?thesis by (simp add: triggerChange_body_def)
  next
    case (Inr a)
    from same_registry_trans[OF f same_fields_registry[OF emit_schema_frame[of s1 a]]]
    show ?thesis using bs Inr by (simp add: triggerChange_body_def)
  qed
qed

lemma triggerChange_body_createBuild:
  "triggerChange_body env s =
    (case createBuild env (s\<lparr>generatedSchema := None\<rparr>) of
       (Inl e, s1) \<Rightarrow> (Inl e, s1)
     | (Inr b, s1) \<Rightarrow>
        (case buildObjectWithHooks env b (world s1) of
           (Inl e, w) \<Rightarrow> (Inl e, s1\<lparr>trace := trace s1 @ [Constructed b], world := w\<rparr>)
         | (Inr a, w) \<Rightarrow>
            emit_schema a
              (s1\<lparr>trace := trace s1 @ [Constructed b], world := w,
                  generatedSchema := Some a\<rparr>)))"
  by (simp add: triggerChange_body_def buildSchema_def Let_def
      split: prod.splits sum.splits)

lemma triggerChange_body_success:
  fixes s :: "('w, 'a) SchemaBuilder"
  assumes "- 1 \<le> depth s" and "hooks s ''build'' = Some hsb"
    and "hooks s ''init'' = Some hsi"
    and "fst (triggerChange_body env s) = Inr ()"
  shows "\<exists>b a. fst (createBuild env (s\<lparr>generatedSchema := None\<rparr>)) = Inr b \<and>
           trace (snd (triggerChange_body env s)) =
             trace s @
             invocations ''build'' Null Undefined hsb (makeNewBuild env) (world s) @
             invocations ''init'' b Undefined hsi (JObj False False [])
               (snd (hook_loop ''build'' Null Undefined hsb (makeNewBuild env) (world s))) @
             [Constructed b, Emitted a] \<and>
           generatedSchema (snd (triggerChange_body env s)) = Some a"
proof -
  let ?s0 = "s\<lparr>generatedSchema := None\<rparr>"
  have a0: "- 1 \<le> depth ?s0" "hooks ?s0 ''build'' = Some hsb" "hooks ?s0 ''init'' = Some hsi"
    using assms(1-3) by simp_all
  obtain r s1 where cb: "createBuild env ?s0 = (r, s1)" by (cases "createBuild env ?s0")
  note un = triggerChange_body_createBuild[of env s]
  from assms(4) cb obtain b where r: "r = Inr b"
    unfolding un by (cases r) simp_all
  obtain rc w where co: "buildObjectWithHooks env b (world s1) = (rc, w)"
    by (cases "buildObjectWithHooks env b (world s1)")
  from assms(4) cb r co obtain a where rc: "rc = Inr a"
    unfolding un by (cases rc) simp_all
  let ?s2 = "s1\<lparr>trace := trace s1 @ [Constructed b], world := w, generatedSchema := Some a\<rparr>"
  have tb: "triggerChange_body env s = emit_schema a ?s2"
    unfolding un using cb r co rc by simp
  have fb: "fst (createBuild env ?s0) = Inr b" using cb r by simp
  from createBuild_trace_Inr(1)[OF a0 fb] cb
  have t1: "trace s1 =
      trace s @
      invocations ''build'' Null Undefined hsb (makeNewBuild env) (world s) @
      invocations ''init'' b Undefined hsi (JObj False False [])
        (snd (hook_loop ''build'' Null Undefined hsb (makeNewBuild env) (world s)))"
    by simp
  have g: "generatedSchema (snd (emit_schema a ?s2)) = Some a"
    using emit_schema_frame[of ?s2 a] by (simp add: same_fields_def)
  have "trace (snd (triggerChange_body env s)) =
             trace s @
             invocations ''build'' Null Undefined hsb (makeNewBuild env) (world s) @
             invocations ''init'' b Undefined hsi (JObj False False [])
               (snd (hook_loop ''build'' Null Undefined hsb (makeNewBuild env) (world s))) @
             [Constructed b, Emitted a]"
    unfolding tb using t1 by (simp add: emit_schema_trace)
  moreover have "generatedSchema (snd (triggerChange_body env s)) = Some a"
    unfolding tb by (rule g)
  ultimately show ?thesis using fb by (intro exI[of _ b] exI[of _ a]) simp
qed

lemma run_callback_frame:
  "same_registry s (snd (snd (run_callback env trig as changed s)))"
proof (induction env trig as changed s rule: run_callback.induct)
  case (1 env trig changed s)
  show ?case by (simp add: same_registry_def)
next
  case (2 env trig f as changed s)
  obtain r w where fw: "f (world s) = (r, w)" by (cases "f (world s)")
  show ?case
  proof (cases r)
    case (Inl e)
    with fw show ?thesis by (simp add: same_registry_def)
  next
    case (Inr u)
    have "same_registry s (s\<lparr>world := w\<rparr>)" by (simp add: same_registry_def)
    from same_registry_trans[OF this "2.IH"[OF fw[symmetric] Inr]]
    show ?thesis using fw Inr by simp
  qed
next
  case (3 env trig as changed s)
  show ?case
  proof (cases trig)
    case None
    then show ?thesis by (simp add: same_registry_def)
  next
    case (Some t)
    obtain r s1 where tb: "triggerChange_body env s = (r, s1)"
      by (cases "triggerChange_body env s")
    from triggerChange_body_frame[of s env] tb have f: "same_registry s s1" by simp
    show ?thesis
    proof (cases r)
      case (Inl e)
      with Some tb f show ?thesis by simp
    next
      case (Inr u)
      from same_registry_trans[OF f "3.IH"[OF Some tb[symmetric] Inr]]
      show ?thesis using Some tb Inr by simp
    qed
  qed
qed

lemma subscribe_frame: "same_registry s (snd (subscribe env i fns s))"
proof (induction fns arbitrary: i s)
  case Nil
  show ?case by (simp add: same_registry_def)
next
  case (Cons fn fns)
  let ?s1 = "s\<lparr>trace := trace s @ [Listened i (triggerChange s)]\<rparr>"
  let ?rc = "run_callback env (triggerChange ?s1) (fn (triggerChange ?s1)) False ?s1"
  obtain r ch s2 where rc: "?rc = (r, ch, s2)" by (cases ?rc)
  from run_callback_frame[of ?s1 env "triggerChange ?s1" "fn (triggerChange ?s1)" False] rc
  have f: "same_registry s s2" by (simp add: same_registry_def)
  show ?case
  proof (cases "\<exists>u. r = Inr u \<and> \<not> ch")
    case True
    then obtain u where "r = Inr u" "\<not> ch" by blast
    with rc have "subscribe env i (fn # fns) s = subscribe env (Suc i) fns s2"
      by (simp add: Let_def)
    with same_registry_trans[OF f Cons.IH[of s2 "Suc i"]] show ?thesis by simp
  next
    case False
    with rc f show ?thesis by (cases r) (auto simp add: Let_def)
  qed
qed

lemma unsubscribe_frame: "same_registry s (snd (unsubscribe env i fns s))"
proof (induction fns arbitrary: i s)
  case Nil
  show ?case by (simp add: same_registry_def)
next
  case (Cons fn fns)
  let ?s1 = "s\<lparr>trace := trace s @ [Unlistened i (triggerChange s)]\<rparr>"
  let ?rc = "run_callback env (triggerChange ?s1) (fn (triggerChange ?s1)) False ?s1"
  obtain r ch s2 where rc: "?rc = (r, ch, s2)" by (cases ?rc)
  from run_callback_frame[of ?s1 env "triggerChange ?s1" "fn (triggerChange ?s1)" False] rc
  have f: "same_registry s s2" by (simp add: same_registry_def)
  show ?case
  proof (cases r)
    case (Inl e)
    with rc f show ?thesis by (simp add: Let_def)
  next
    case (Inr u)
    with rc have "unsubscribe env i (fn # fns) s = unsubscribe env (Suc i) fns s2"
      by (simp add: Let_def)
    with same_registry_trans[OF f Cons.IH[of s2 "Suc i"]] show ?thesis by simp
  qed
qed

subsection \<open>The loop over the live array\<close>






subsection \<open>What the callbacks add to the trace\<close>

lemma buildSchema_trace:
  "\<exists>evs. trace (snd (buildSchema env s)) = trace s @ evs \<and>
         emissions evs = [] \<and> listens evs = [] \<and> unlistens evs = []"
proof (cases "generatedSchema s")
  case (Some a)
  then show ?thesis by (simp add: buildSchema_def)
next
  case None
  obtain r s1 where cb: "createBuild env s = (r, s1)" by (cases "createBuild env s")
  from createBuild_grows[of env s] cb obtain e1 where
    e1: "trace s1 = trace s @ e1" "hook_calls e1" by auto
  note z = hook_calls_emissions[OF e1(2)] hook_calls_listens[OF e1(2)]
    hook_calls_unlistens[OF e1(2)]
  show ?thesis
  proof (cases r)
    case (Inl e)
    with None cb e1 z show ?thesis by (simp add: buildSchema_def)
  next
    case (Inr b)
    have "trace (snd (buildSchema env s)) = trace s @ (e1 @ [Constructed b])"
      using None cb Inr e1 by (simp add: buildSchema_def Let_def split: sum.splits)
    moreover have "emissions (e1 @ [Constructed b]) = []" "listens (e1 @ [Constructed b]) = []"
      "unlistens (e1 @ [Constructed b]) = []"
      using z by (simp_all add: emissions_append listens_append unlistens_append)
    ultimately show ?thesis by blast
  qed
qed

lemma triggerChange_body_trace:
  "\<exists>evs. trace (snd (triggerChange_body env s)) = trace s @ evs \<and>
         listens evs = [] \<and> unlistens evs = []"
proof -
  let ?s0 = "s\<lparr>generatedSchema := None\<rparr>"
  obtain r s1 where bs: "buildSchema env ?s0 = (r, s1)" by (cases "buildSchema env ?s0")
  from buildSchema_trace[of env ?s0] bs obtain e1 where
    e1: "trace s1 = trace s @ e1" "listens e1 = []" "unlistens e1 = []" by auto
  show ?thesis
  proof (cases r)
    case (Inl e)
    with bs e1 show ?thesis by (simp add: triggerChange_body_def)
  next
    case (Inr a)
    have "trace (snd (triggerChange_body env s)) = trace s @ (e1 @ [Emitted a])"
      using bs Inr e1 by (simp add: triggerChange_body_def emit_schema_trace)
    moreover have "listens (e1 @ [Emitted a]) = []" "unlistens (e1 @ [Emitted a]) = []"
      using e1 by (simp_all add: listens_append unlistens_append)
    ultimately show ?thesis by blast
  qed
qed

lemma triggerChange_body_rebuilds:
  assumes "triggerChange_body env s = (Inr u, s1)"
  shows "rebuilt_since (constructions (trace s)) s1"
proof -
  let ?s0 = "s\<lparr>generatedSchema := None\<rparr>"
  obtain r s0' where bs: "buildSchema env ?s0 = (r, s0')" by (cases "buildSchema env ?s0")
  from assms bs obtain a where r: "r = Inr a" and em: "emit_schema a s0' = (Inr u, s1)"
    by (cases r) (simp_all add: triggerChange_body_def)
  have fa: "fst (buildSchema env ?s0) = Inr a" using bs r by simp
  have g: "generatedSchema s0' = Some a"
    using buildSchema_fst_Inr[OF fa] bs by simp
  have c: "constructions (trace s0') = Suc (constructions (trace s))"
    using buildSchema_rebuild_constructions[OF _ fa] bs by simp
  have g1: "generatedSchema s1 = Some a"
    using emit_schema_frame[of s0' a] em g by (simp add: same_fields_def)
  have t1: "trace s1 = trace s0' @ [Emitted a]"
    using emit_schema_trace[of a s0'] em by simp
  show ?thesis
    using g1 t1 c
    by (simp add: rebuilt_since_def constructions_append emissions_append)
qed

lemma run_callback_rebuilt:
  "run_callback env trig as ch s = (Inr u, ch', s') \<Longrightarrow>
   n \<le> constructions (trace s) \<Longrightarrow> (ch \<longrightarrow> rebuilt_since n s) \<Longrightarrow>
     (ch' \<longrightarrow> rebuilt_since n s') \<and> n \<le> constructions (trace s')"
proof (induction env trig as ch s rule: run_callback.induct)
  case (1 env trig changed s)
  then show ?case by simp
next
  case (2 env trig f as changed s)
  obtain r w where fw: "f (world s) = (r, w)" by (cases "f (world s)")
  with "2.prems"(1) obtain x where r: "r = Inr x" by (cases r) simp_all
  from "2.prems"(1) fw r have
    rc: "run_callback env trig as changed (s\<lparr>world := w\<rparr>) = (Inr u, ch', s')" by simp
  have "n \<le> constructions (trace (s\<lparr>world := w\<rparr>))"
    "changed \<longrightarrow> rebuilt_since n (s\<lparr>world := w\<rparr>)"
    using "2.prems"(2,3) by (simp_all add: rebuilt_since_def)
  from "2.IH"[OF fw[symmetric] r rc this] show ?case .
next
  case (3 env trig as changed s)
  from "3.prems"(1) obtain t where t: "trig = Some t" by (cases trig) simp_all
  obtain r s1 where tb: "triggerChange_body env s = (r, s1)"
    by (cases "triggerChange_body env s")
  with "3.prems"(1) t obtain x where r: "r = Inr x" by (cases r) simp_all
  from "3.prems"(1) t tb r have
    rc: "run_callback env trig as True s1 = (Inr u, ch', s')" by simp
  from triggerChange_body_rebuilds[of env s x s1] tb r
  have rb: "rebuilt_since (constructions (trace s)) s1" by simp
  then have "n \<le> constructions (trace s1)" "True \<longrightarrow> rebuilt_since n s1"
    using "3.prems"(2) by (simp_all add: rebuilt_since_def)
  from "3.IH"[OF t tb[symmetric] r rc this] show ?case .
qed

lemma run_callback_trace:
  "\<exists>evs. trace (snd (snd (run_callback env trig as ch s))) = trace s @ evs \<and>
         listens evs = [] \<and> unlistens evs = []"
proof (induction env trig as ch s rule: run_callback.induct)
  case (1 env trig changed s)
  show ?case by simp
next
  case (2 env trig f as changed s)
  obtain r w where fw: "f (world s) = (r, w)" by (cases "f (world s)")
  show ?case
  proof (cases r)
    case (Inl e)
    with fw show ?thesis by simp
  next
    case (Inr x)
    from "2.IH"[OF fw[symmetric] Inr] fw Inr show ?thesis by simp
  qed
next
  case (3 env trig as changed s)
  show ?case
  proof (cases trig)
    case None
    then show ?thesis by simp
  next
    case (Some t)
    obtain r s1 where tb: "triggerChange_body env s = (r, s1)"
      by (cases "triggerChange_body env s")
    from triggerChange_body_trace[of env s] tb obtain e1 where
      e1: "trace s1 = trace s @ e1" "listens e1 = []" "unlistens e1 = []" by auto
    show ?thesis
    proof (cases r)
      case (Inl e)
      with Some tb e1 show ?thesis by simp
    next
      case (Inr x)
      from "3.IH"[OF Some tb[symmetric] Inr] obtain e2 where
        e2: "trace (snd (snd (run_callback env trig as True s1))) = trace s1 @ e2"
          "listens e2 = []" "unlistens e2 = []" by auto
      have "trace (snd (snd (run_callback env trig (CallTrigger # as) changed s))) =
              trace s @ (e1 @ e2)"
        using Some tb Inr e1 e2 by simp
      moreover have "listens (e1 @ e2) = []" "unlistens (e1 @ e2) = []"
        using e1 e2 by (simp_all add: listens_append unlistens_append)
      ultimately show ?thesis by blast
    qed
  qed
qed

subsection \<open>Subscribing and unsubscribing the watchers\<close>

lemma subscribe_listens:
  "fst (subscribe env i fns s) = Inr () \<Longrightarrow>
     listens (trace (snd (subscribe env i fns s))) =
       listens (trace s) @ map (\<lambda>j. (j, triggerChange s)) [i..<i + length fns] \<and>
     unlistens (trace (snd (subscribe env i fns s))) = unlistens (trace s)"
proof (induction fns arbitrary: i s)
  case Nil
  show ?case by simp
next
  case (Cons fn fns)
  let ?s1 = "s\<lparr>trace := trace s @ [Listened i (triggerChange s)]\<rparr>"
  let ?rc = "run_callback env (triggerChange ?s1) (fn (triggerChange ?s1)) False ?s1"
  obtain r ch s2 where rc: "?rc = (r, ch, s2)" by (cases ?rc)
  from run_callback_frame[of ?s1 env "triggerChange ?s1" "fn (triggerChange ?s1)" False] rc
  have tc: "triggerChange s2 = triggerChange s" by (simp add: same_registry_def)
  from run_callback_trace[of env "triggerChange ?s1" "fn (triggerChange ?s1)" False ?s1] rc
  obtain evs where evs: "trace s2 = trace s @ [Listened i (triggerChange s)] @ evs"
    "listens evs = []" "unlistens evs = []" by auto
  from Cons.prems rc have ok: "r = Inr ()" "\<not> ch"
    and nx: "subscribe env i (fn # fns) s = subscribe env (Suc i) fns s2"
    by (cases r; cases ch; simp add: Let_def)+
  from Cons.prems nx have "fst (subscribe env (Suc i) fns s2) = Inr ()" by simp
  note ih = Cons.IH[OF this]
  have up: "[i..<i + length (fn # fns)] = i # [Suc i..<Suc i + length fns]"
    by (simp add: upt_conv_Cons del: upt_Suc)
  show ?case
    unfolding nx up using ih evs tc
    by (simp add: listens_append unlistens_append del: upt_Suc)
qed

lemma unsubscribe_unlistens:
  "fst (unsubscribe env i fns s) = Inr () \<Longrightarrow>
     unlistens (trace (snd (unsubscribe env i fns s))) =
       unlistens (trace s) @ map (\<lambda>j. (j, triggerChange s)) [i..<i + length fns] \<and>
     listens (trace (snd (unsubscribe env i fns s))) = listens (trace s)"
proof (induction fns arbitrary: i s)
  case Nil
  show ?case by simp
next
  case (Cons fn fns)
  let ?s1 = "s\<lparr>trace := trace s @ [Unlistened i (triggerChange s)]\<rparr>"
  let ?rc = "run_callback env (triggerChange ?s1) (fn (triggerChange ?s1)) False ?s1"
  obtain r ch s2 where rc: "?rc = (r, ch, s2)" by (cases ?rc)
  from run_callback_frame[of ?s1 env "triggerChange ?s1" "fn (triggerChange ?s1)" False] rc
  have tc: "triggerChange s2 = triggerChange s" by (simp add: same_registry_def)
  from run_callback_trace[of env "triggerChange ?s1" "fn (triggerChange ?s1)" False ?s1] rc
  obtain evs where evs: "trace s2 = trace s @ [Unlistened i (triggerChange s)] @ evs"
    "listens evs = []" "unlistens evs = []" by auto
  from Cons.prems rc have ok: "r = Inr ()"
    and nx: "unsubscribe env i (fn # fns) s = unsubscribe env (Suc i) fns s2"
    by (cases r; simp add: Let_def)+
  from Cons.prems nx have "fst (unsubscribe env (Suc i) fns s2) = Inr ()" by simp
  note ih = Cons.IH[OF this]
  have up: "[i..<i + length (fn # fns)] = i # [Suc i..<Suc i + length fns]"
    by (simp add: upt_conv_Cons del: upt_Suc)
  show ?case
    unfolding nx up using ih evs tc
    by (simp add: listens_append unlistens_append del: upt_Suc)
qed

lemma watch_begin_fields:
  "watching (watch_begin l s) \<and> explicitSchemaListener (watch_begin l s) = l \<and>
   triggerChange (watch_begin l s) = Some (triggersIssued s) \<and>
   watchers (watch_begin l s) = watchers s \<and> unwatchers (watch_begin l s) = unwatchers s \<and>
   trace (watch_begin l s) = trace s \<and> hooks (watch_begin l s) = hooks s \<and>
   depth (watch_begin l s) = depth s \<and>
   schemaListeners (watch_begin l s) =
     schemaListeners s @ (case l of None \<Rightarrow> [] | Some f \<Rightarrow> [f])"
  by (simp add: watch_begin_def Let_def on_schema_def split: option.splits)

lemma unwatchSchema_with_listener:
  "watching s \<Longrightarrow> explicitSchemaListener s = Some l \<Longrightarrow>
     unwatchSchema env s =
       (Inl (TypeError ''this.removeEventListener is not a function''),
        s\<lparr>watching := False, explicitSchemaListener := None\<rparr>)"
  by (simp add: unwatchSchema_def Let_def)

lemma unwatchSchema_without_listener:
  assumes "watching s" and "explicitSchemaListener s = None"
    and "fst (unwatchSchema env s) = Inr ()"
  shows "\<not> watching (snd (unwatchSchema env s)) \<and>
         explicitSchemaListener (snd (unwatchSchema env s)) = None \<and>
         triggerChange (snd (unwatchSchema env s)) = None \<and>
         unlistens (trace (snd (unwatchSchema env s))) =
           unlistens (trace s) @
           map (\<lambda>j. (j, triggerChange s)) [0..<length (unwatchers s)]"
proof -
  let ?s2 = "s\<lparr>watching := False, explicitSchemaListener := None\<rparr>"
  let ?us = "unsubscribe env 0 (unwatchers s) ?s2"
  obtain r s3 where us: "?us = (r, s3)" by (cases ?us)
  have eq: "unwatchSchema env s =
      (case ?us of
         (Inl e, s3) \<Rightarrow> (Inl e, s3)
       | (Inr u, s3) \<Rightarrow> (Inr (), s3\<lparr>triggerChange := None\<rparr>))"
    using assms(1,2) by (simp add: unwatchSchema_def Let_def)
  have r: "r = Inr ()"
    using assms(3) unfolding eq us by (cases r) simp_all
  have res: "unwatchSchema env s = (Inr (), s3\<lparr>triggerChange := None\<rparr>)"
    unfolding eq us r by simp
  from unsubscribe_frame[of ?s2 env 0 "unwatchers s"] us
  have f: "\<not> watching s3" "explicitSchemaListener s3 = None"
    by (simp_all add: same_registry_def)
  from us r have "fst ?us = Inr ()" by simp
  from unsubscribe_unlistens[OF this] us
  have "unlistens (trace s3) =
           unlistens (trace s) @
           map (\<lambda>j. (j, triggerChange s)) [0..<length (unwatchers s)]" by simp
  with f show ?thesis unfolding res by simp
qed

lemma watchSchema_success:
  assumes "\<not> watching s" and "fst (watchSchema env listener s) = Inr ()"
  shows "watching (snd (watchSchema env listener s)) \<and>
         explicitSchemaListener (snd (watchSchema env listener s)) = listener \<and>
         triggerChange (snd (watchSchema env listener s)) = Some (triggersIssued s) \<and>
         unwatchers (snd (watchSchema env listener s)) = unwatchers s \<and>
         listens (trace (snd (watchSchema env listener s))) =
           listens (trace s) @
           map (\<lambda>j. (j, Some (triggersIssued s))) [0..<length (watchers s)]"
proof -
  let ?s2 = "watch_begin listener s"
  note wb = watch_begin_fields[of listener s]
  let ?sub = "subscribe env 0 (watchers s) ?s2"
  obtain r s3 where sub: "?sub = (r, s3)" by (cases ?sub)
  let ?bs = "buildSchema env s3"
  obtain r4 s4 where bs: "?bs = (r4, s4)" by (cases ?bs)
  from assms sub bs wb obtain a where r: "r = Inr ()" and r4: "r4 = Inr a"
    and res: "watchSchema env listener s = emit_schema a s4"
    by (cases r; cases r4; simp add: watchSchema_def Let_def)
  from subscribe_frame[of ?s2 env 0 "watchers s"] sub have f3: "same_registry ?s2 s3" by simp
  from buildSchema_frame[of s3 env] bs have f4: "same_registry s3 s4" by simp
  from emit_schema_frame[of s4 a] have f5: "same_registry s4 (snd (emit_schema a s4))"
    by (rule same_fields_registry)
  note f = same_registry_trans[OF same_registry_trans[OF f3 f4] f5]
  from sub r have "fst ?sub = Inr ()" by simp
  from subscribe_listens[OF this] sub wb
  have l3: "listens (trace s3) =
      listens (trace s) @ map (\<lambda>j. (j, Some (triggersIssued s))) [0..<length (watchers s)]"
    by simp
  from buildSchema_trace[of env s3] bs obtain e4 where
    e4: "trace s4 = trace s3 @ e4" "listens e4 = []" by auto
  have "listens (trace (snd (emit_schema a s4))) = listens (trace s3)"
    using e4 by (simp add: emit_schema_trace listens_append)
  with l3 f wb show ?thesis
    unfolding res by (simp add: same_registry_def)
qed

lemma failed_watch_not_rolled_back:
  assumes "subscribe env 0 pre (watch_begin listener s) = (Inr (), s3)"
    and "run_callback env (triggerChange s3) (fn (triggerChange s3)) False
           (s3\<lparr>trace := trace s3 @ [Listened (length pre) (triggerChange s3)]\<rparr>) =
         (Inr u, True, s4)"
  shows "watching s4 \<and> explicitSchemaListener s4 = listener \<and>
         triggerChange s4 = Some (triggersIssued s) \<and>
         rebuilt_since (constructions (trace s)) s4 \<and>
         fst (watchSchema env l2 s4) = Inl AlreadyWatching \<and>
         fst (unwatchSchema env s4) =
           (case listener of
              Some l \<Rightarrow> Inl (TypeError ''this.removeEventListener is not a function'')
            | None \<Rightarrow> fst (unsubscribe env 0 (unwatchers s)
                              (s4\<lparr>watching := False, explicitSchemaListener := None\<rparr>)))"
proof -
  let ?s2 = "watch_begin listener s"
  let ?s3' = "s3\<lparr>trace := trace s3 @ [Listened (length pre) (triggerChange s3)]\<rparr>"
  note wb = watch_begin_fields[of listener s]
  from subscribe_frame[of ?s2 env 0 pre] assms(1) have f3: "same_registry ?s2 s3" by simp
  have f3': "same_registry s3 ?s3'" by (simp add: same_registry_def)
  from run_callback_frame[of ?s3' env "triggerChange s3" "fn (triggerChange s3)" False] assms(2)
  have f4: "same_registry ?s3' s4" by simp
  note f = same_registry_trans[OF same_registry_trans[OF f3 f3'] f4]
  have w: "watching s4" "explicitSchemaListener s4 = listener"
    "triggerChange s4 = Some (triggersIssued s)"
    using f wb by (simp_all add: same_registry_def)
  have g: "\<exists>evs. trace (snd (subscribe env i fns t)) = trace t @ evs" for i fns
      and t :: "('a, 'b) SchemaBuilder"
  proof (induction fns arbitrary: i t)
    case Nil
    show ?case by simp
  next
    case (Cons fn' fns)
    let ?t1 = "t\<lparr>trace := trace t @ [Listened i (triggerChange t)]\<rparr>"
    let ?rc = "run_callback env (triggerChange ?t1) (fn' (triggerChange ?t1)) False ?t1"
    obtain r ch t2 where rc: "?rc = (r, ch, t2)" by (cases ?rc)
    from run_callback_trace[of env "triggerChange ?t1" "fn' (triggerChange ?t1)" False ?t1] rc
    obtain e1 where e1: "trace t2 = trace t @ [Listened i (triggerChange t)] @ e1" by auto
    from Cons.IH[of "Suc i" t2] obtain e2 where
      e2: "trace (snd (subscribe env (Suc i) fns t2)) = trace t2 @ e2" by blast
    show ?case
      using rc e1 e2 by (cases r; cases ch; simp add: Let_def)
  qed
  from g[of 0 pre ?s2] assms(1) wb obtain e3 where e3: "trace s3 = trace s @ e3" by auto
  have c3: "constructions (trace s) \<le> constructions (trace ?s3')"
    using e3 by (simp add: constructions_append)
  from run_callback_rebuilt[OF assms(2) c3] have "rebuilt_since (constructions (trace s)) s4"
    by simp
  moreover have "fst (watchSchema env l2 s4) = Inl AlreadyWatching"
    using w(1) by (simp add: watchSchema_def)
  moreover have "fst (unwatchSchema env s4) =
      (case listener of
         Some l \<Rightarrow> Inl (TypeError ''this.removeEventListener is not a function'')
       | None \<Rightarrow> fst (unsubscribe env 0 (unwatchers s)
                         (s4\<lparr>watching := False, explicitSchemaListener := None\<rparr>)))"
  proof (cases listener)
    case (Some l)
    with w unwatchSchema_with_listener[of s4 l env] show ?thesis by simp
  next
    case None
    let ?u = "unsubscribe env 0 (unwatchers s4)
                (s4\<lparr>watching := False, explicitSchemaListener := None\<rparr>)"
    have "unwatchers s4 = unwatchers s" using f wb by (simp add: same_registry_def)
    moreover have "fst (unwatchSchema env s4) = fst ?u"
      using w None by (cases ?u) (simp add: unwatchSchema_def Let_def split: sum.splits)
    ultimately show ?thesis using None by simp
  qed
  ultimately show ?thesis using w by simp
qed

subsection \<open>The depth counter\<close>

text \<open>
  The constructor sets the depth to -1, and every method leaves it as it finds it (for
  \<^verbatim>\<open>applyHooks\<close>, \<^verbatim>\<open>createBuild\<close> and \<^verbatim>\<open>buildSchema\<close> by the frame lemmas above). So
  the condition that the depth is at least -1, under which the theorems on dispatches
  are stated, holds of every state that the methods produce from a new builder.
\<close>

lemma new_SchemaBuilder_depth: "depth (new_SchemaBuilder w) = - 1"
  by (simp add: new_SchemaBuilder_def)

lemma hook_keeps_depth: "depth (snd (hook n fn s)) = depth s"
  by (simp add: hook_def Let_def split: slot.splits)

lemma addWatcher_keeps_depth: "depth (snd (addWatcher l u s)) = depth s"
  by (simp add: addWatcher_def split: option.splits)

lemma watchSchema_keeps_depth: "depth (snd (watchSchema env l s)) = depth s"
proof (cases "watching s")
  case True
  then show ?thesis by (simp add: watchSchema_def)
next
  case False
  let ?s2 = "watch_begin l s"
  note wb = watch_begin_fields[of l s]
  let ?sub = "subscribe env 0 (watchers ?s2) ?s2"
  obtain r s3 where sub: "?sub = (r, s3)" by (cases ?sub)
  from subscribe_frame[of ?s2 env 0 "watchers ?s2"] sub wb have d3: "depth s3 = depth s"
    by (simp add: same_registry_def)
  show ?thesis
  proof (cases r)
    case (Inl e)
    with False sub d3 show ?thesis by (simp add: watchSchema_def Let_def)
  next
    case (Inr u)
    obtain r4 s4 where bs: "buildSchema env s3 = (r4, s4)" by (cases "buildSchema env s3")
    from buildSchema_frame[of s3 env] bs d3 have d4: "depth s4 = depth s"
      by (simp add: same_registry_def)
    show ?thesis
    proof (cases r4)
      case (Inl e)
      with False sub Inr bs d4 show ?thesis by (simp add: watchSchema_def Let_def)
    next
      case a: (Inr a)
      from emit_schema_frame[of s4 a] d4 have "depth (snd (emit_schema a s4)) = depth s"
        by (simp add: same_fields_def)
      with False sub Inr bs a show ?thesis by (simp add: watchSchema_def Let_def)
    qed
  qed
qed

lemma unwatchSchema_keeps_depth: "depth (snd (unwatchSchema env s)) = depth s"
proof (cases "watching s \<and> explicitSchemaListener s = None")
  case False
  then show ?thesis by (auto simp add: unwatchSchema_def Let_def split: option.splits)
next
  case True
  let ?s2 = "s\<lparr>watching := False, explicitSchemaListener := None\<rparr>"
  let ?us = "unsubscribe env 0 (unwatchers s) ?s2"
  obtain r s3 where us: "?us = (r, s3)" by (cases ?us)
  from unsubscribe_frame[of ?s2 env 0 "unwatchers s"] us have "depth s3 = depth s"
    by (simp add: same_registry_def)
  with True us show ?thesis
    by (cases r) (simp_all add: unwatchSchema_def Let_def)
qed

section \<open>The claims\<close>

subsection \<open>C1: a phase threads the value through its hooks in registration order\<close>




subsection \<open>C2: a falsy return stops the phase\<close>

text \<open>
  Claim C2. In a dispatch of the phase \<open>P\<close> whose hooks are \<open>pre\<close>, then \<open>h\<close>, then \<open>post\<close>:
  when the hooks of \<open>pre\<close> have run and returned truthy values, threading \<open>v0\<close> to \<open>u\<close>, and
  \<open>h\<close>, called on \<open>u\<close>, returns a falsy value, then \<^verbatim>\<open>applyHooks\<close> ends with the
  HookReturnedEmpty error that names \<open>h\<close> (by \<^verbatim>\<open>displayName || name || "anonymous"\<close>) and
  the phase. The calls made are those of \<open>pre\<close> and then the one of \<open>h\<close>, and no more: no
  hook of \<open>post\<close> is called, the world is as \<open>h\<close> left it, and the depth and every other
  field of the builder are as before the dispatch, so the caller gets the error at once.
\<close>

theorem applyHooks_falsy_fails_fast:
  fixes s :: "('w, 'a) SchemaBuilder"
  assumes "- 1 \<le> depth s" and "hooks s P = Some (pre @ h # post)"
    and "thread b c pre v0 (world s) = (Inr u, w1)"
    and "returns_truthy b c pre v0 (world s)"
    and "call h u b c w1 = (Inr r, w2)" and "\<not> truthy r"
  shows "fst (applyHooks b P v0 c dbg s) =
           Inl (HookReturnedEmpty
                 (or_else (displayName h) (or_else (name h) ''anonymous'')) P) \<and>
         trace (snd (applyHooks b P v0 c dbg s)) =
           trace s @ calls_in_order P b c pre v0 (world s) @
           [Invoked P (or_else (displayName h) (or_else (name h) ''anonymous'')) u b c] \<and>
         length (trace (snd (applyHooks b P v0 c dbg s))) = length (trace s) + length pre + 1 \<and>
         world (snd (applyHooks b P v0 c dbg s)) = w2 \<and>
         same_fields s (snd (applyHooks b P v0 c dbg s))"
proof -
  note ah = applyHooks_char[OF assms(1,2), of b v0 c dbg]
  note hl = hook_loop_falsy[OF assms(3-6), of P post]
  have inv: "invocations P b c (pre @ h # post) v0 (world s) =
      calls_in_order P b c pre v0 (world s) @
      [Invoked P (or_else (displayName h) (or_else (name h) ''anonymous'')) u b c :: 'a event]"
    by (rule invocations_falsy[OF assms(3-6)])
  have len: "length (calls_in_order P b c pre v0 (world s) :: 'a event list) = length pre"
    by (rule calls_in_order_length[OF assms(3)])
  show ?thesis
    using ah hl inv len by simp
qed

theorem applyHooks_falsy_fails_fast_witness:
  "fst (applyHooks Null ''build'' (JObj False False []) Undefined []
          (register ''build'' [keep, returns_null, add_a] fresh)) =
     Inl (HookReturnedEmpty ''returns_null'' ''build'') \<and>
   trace (snd (applyHooks Null ''build'' (JObj False False []) Undefined []
          (register ''build'' [keep, returns_null, add_a] fresh))) =
     [Invoked ''build'' ''keep'' (JObj False False []) Null Undefined,
      Invoked ''build'' ''returns_null'' (JObj False False []) Null Undefined] \<and>
   world (snd (applyHooks Null ''build'' (JObj False False []) Undefined []
          (register ''build'' [keep, returns_null, add_a] fresh))) = 2"
  using applyHooks_falsy_fails_fast[of "register ''build'' [keep, returns_null, add_a] fresh"
          "''build''" "[keep]" returns_null "[add_a]" Null Undefined "JObj False False []"
          "JObj False False []" 1 Null 2 "[]"]
  by (simp add: sample_defs)

subsection \<open>C3: the build object is frozen between the two phases\<close>

text \<open>
  Claim C3. \<^verbatim>\<open>createBuild\<close> returns exactly when the \<^verbatim>\<open>build\<close> phase, the binding and
  the \<^verbatim>\<open>init\<close> phase all succeed, and what it returns then is the value threaded
  through the \<^verbatim>\<open>build\<close> phase, bound and frozen; any other outcome is the error of the
  first step that fails. When it returns the build object \<open>b\<close>: \<open>b\<close> is frozen; every
  write to it, an assignment or a delete, in strict or sloppy code, either throws or
  leaves \<open>b\<close> as it is; and the freeze lies between the two phases: the calls recorded are
  those of the \<^verbatim>\<open>build\<close> phase, all of them first, and then those of the \<^verbatim>\<open>init\<close>
  phase, each of which is handed the frozen \<open>b\<close> as its \<open>build\<close> argument. The freeze is
  that of \<^verbatim>\<open>Object.freeze\<close>: it is about the properties of \<open>b\<close> itself, which are what
  the writes of the model address.
\<close>

theorem createBuild_freezes_context:
  fixes s :: "('w, 'a) SchemaBuilder"
  assumes "- 1 \<le> depth s" and "hooks s ''build'' = Some hsb"
    and "hooks s ''init'' = Some hsi"
  shows "fst (createBuild env s) =
           (case fst (hook_loop ''build'' Null Undefined hsb (makeNewBuild env) (world s)) of
              Inl e \<Rightarrow> Inl e
            | Inr v \<Rightarrow>
               (case function_keys v of
                  Inl e \<Rightarrow> Inl e
                | Inr ks \<Rightarrow>
                   (case bindAll env v ks of
                      Inl e \<Rightarrow> Inl e
                    | Inr bound \<Rightarrow>
                       (case fst (hook_loop ''init'' (Object_freeze bound) Undefined hsi
                                   (JObj False False [])
                                   (snd (hook_loop ''build'' Null Undefined hsb
                                          (makeNewBuild env) (world s)))) of
                          Inl e \<Rightarrow> Inl e
                        | Inr x \<Rightarrow> Inr (Object_freeze bound))))) \<and>
         (\<forall>b. fst (createBuild env s) = Inr b \<longrightarrow>
            Object_isFrozen b \<and>
            (\<forall>strict k x b'. assign strict b k x = Inr b' \<longrightarrow> b' = b) \<and>
            (\<forall>strict k b'. delete_property strict b k = Inr b' \<longrightarrow> b' = b) \<and>
            trace (snd (createBuild env s)) =
              trace s @
              invocations ''build'' Null Undefined hsb (makeNewBuild env) (world s) @
              invocations ''init'' b Undefined hsi (JObj False False [])
                (snd (hook_loop ''build'' Null Undefined hsb (makeNewBuild env) (world s))))"
proof (intro conjI allI impI)
  show "fst (createBuild env s) =
           (case fst (hook_loop ''build'' Null Undefined hsb (makeNewBuild env) (world s)) of
              Inl e \<Rightarrow> Inl e
            | Inr v \<Rightarrow>
               (case function_keys v of
                  Inl e \<Rightarrow> Inl e
                | Inr ks \<Rightarrow>
                   (case bindAll env v ks of
                      Inl e \<Rightarrow> Inl e
                    | Inr bound \<Rightarrow>
                       (case fst (hook_loop ''init'' (Object_freeze bound) Undefined hsi
                                   (JObj False False [])
                                   (snd (hook_loop ''build'' Null Undefined hsb
                                          (makeNewBuild env) (world s)))) of
                          Inl e \<Rightarrow> Inl e
                        | Inr x \<Rightarrow> Inr (Object_freeze bound)))))"
    by (rule createBuild_fst[OF assms])
next
  fix b
  assume ok: "fst (createBuild env s) = Inr b"
  from createBuild_fst_Inr[OF ok] obtain bound where "b = Object_freeze bound" by blast
  then show fr: "Object_isFrozen b" by (simp add: Object_freeze_frozen)
  show "trace (snd (createBuild env s)) =
              trace s @
              invocations ''build'' Null Undefined hsb (makeNewBuild env) (world s) @
              invocations ''init'' b Undefined hsi (JObj False False [])
                (snd (hook_loop ''build'' Null Undefined hsb (makeNewBuild env) (world s)))"
    by (rule createBuild_trace_Inr(1)[OF assms ok])
  fix strict k
  { fix x b'
    assume "assign strict b k x = Inr b'"
    then show "b' = b" by (rule frozen_assign[OF fr]) }
  { fix b'
    assume "delete_property strict b k = Inr b'"
    then show "b' = b" by (rule frozen_delete[OF fr]) }
qed

theorem createBuild_freezes_context_witness:
  "fst (createBuild sample_collaborators
          (register ''init'' [keep] (register ''build'' [keep, add_a] fresh))) =
     Inr (JObj False True [(''buildObjectWithHooks'', JObj True False []), (''a'', JNum 1)]) \<and>
   Object_isFrozen
     (JObj False True [(''buildObjectWithHooks'', JObj True False []), (''a'', JNum 1)]) \<and>
   assign True (JObj False True [(''buildObjectWithHooks'', JObj True False []), (''a'', JNum 1)])
     ''a'' (JNum 2) = Inl (TypeError ''Cannot assign to read only property'') \<and>
   assign False (JObj False True [(''buildObjectWithHooks'', JObj True False []), (''a'', JNum 1)])
     ''a'' (JNum 2) =
     Inr (JObj False True [(''buildObjectWithHooks'', JObj True False []), (''a'', JNum 1)]) \<and>
   trace (snd (createBuild sample_collaborators
                 (register ''init'' [keep] (register ''build'' [keep, add_a] fresh)))) =
     [Invoked ''build'' ''keep''
        (JObj False False [(''buildObjectWithHooks'', JObj True False [])]) Null Undefined,
      Invoked ''build'' ''add_a''
        (JObj False False [(''buildObjectWithHooks'', JObj True False [])]) Null Undefined,
      Invoked ''init'' ''keep'' (JObj False False [])
        (JObj False True [(''buildObjectWithHooks'', JObj True False []), (''a'', JNum 1)])
        Undefined]"
  using createBuild_freezes_context[of
          "register ''init'' [keep] (register ''build'' [keep, add_a] fresh)"
          "[keep, add_a]" "[keep]" sample_collaborators]
  by (simp add: sample_defs sample_collaborators_def createBuild_def applyHooks_def
       hook_step_def repeat_def debug_def Let_def)

subsection \<open>C4: what the build phase is dispatched with\<close>

text \<open>
  Claim C4, as amended. \<^verbatim>\<open>createBuild\<close> calls
  \<^verbatim>\<open>applyHooks(null, "build", makeNewBuild(this))\<close>: the result of \<^verbatim>\<open>makeNewBuild\<close> is
  the initial threaded value, null is the \<open>build\<close> argument and the \<open>context\<close> argument is
  undefined. So the calls of \<^verbatim>\<open>createBuild\<close> begin with those of the \<^verbatim>\<open>build\<close> hooks
  on the seed with null and undefined beside it; an error of that phase is the error of
  \<^verbatim>\<open>createBuild\<close>; and the object \<^verbatim>\<open>createBuild\<close> returns is the value threaded from the
  seed, bound and frozen.
\<close>

theorem createBuild_threads_seed:
  fixes s :: "('w, 'a) SchemaBuilder"
  assumes "- 1 \<le> depth s" and "hooks s ''build'' = Some hsb"
  shows "(\<exists>rest. trace (snd (createBuild env s)) =
            trace s @
            invocations ''build'' Null Undefined hsb (makeNewBuild env) (world s) @ rest) \<and>
         (\<forall>e. fst (hook_loop ''build'' Null Undefined hsb (makeNewBuild env) (world s)) = Inl e
              \<longrightarrow> fst (createBuild env s) = Inl e) \<and>
         (\<forall>b. fst (createBuild env s) = Inr b \<longrightarrow>
              (\<exists>v ks bound.
                 fst (hook_loop ''build'' Null Undefined hsb (makeNewBuild env) (world s)) = Inr v \<and>
                 function_keys v = Inr ks \<and> bindAll env v ks = Inr bound \<and>
                 b = Object_freeze bound))"
proof (intro conjI allI impI)
  show "\<exists>rest. trace (snd (createBuild env s)) =
            trace s @
            invocations ''build'' Null Undefined hsb (makeNewBuild env) (world s) @ rest"
    by (rule createBuild_build_phase[OF assms])
next
  fix e
  assume "fst (hook_loop ''build'' Null Undefined hsb (makeNewBuild env) (world s)) = Inl e"
  then show "fst (createBuild env s) = Inl e"
    by (rule createBuild_build_fails[OF assms])
next
  fix b
  assume "fst (createBuild env s) = Inr b"
  then show "\<exists>v ks bound.
                 fst (hook_loop ''build'' Null Undefined hsb (makeNewBuild env) (world s)) = Inr v \<and>
                 function_keys v = Inr ks \<and> bindAll env v ks = Inr bound \<and>
                 b = Object_freeze bound"
    by (rule createBuild_result[OF assms])
qed

theorem createBuild_threads_seed_witness:
  "trace (snd (createBuild sample_collaborators (register ''build'' [add_a] fresh))) =
     [Invoked ''build'' ''add_a''
        (JObj False False [(''buildObjectWithHooks'', JObj True False [])]) Null Undefined] \<and>
   fst (createBuild sample_collaborators (register ''build'' [add_a] fresh)) =
     Inr (JObj False True [(''buildObjectWithHooks'', JObj True False []), (''a'', JNum 1)])"
  using createBuild_threads_seed[of "register ''build'' [add_a] fresh" "[add_a]"
          sample_collaborators]
  by (simp add: sample_defs sample_collaborators_def createBuild_def applyHooks_def
       hook_step_def repeat_def debug_def Let_def)

text \<open>
  The claim as stated has null as the value threaded first and the seed as an argument
  beside it. With the single hook \<open>keep\<close> registered for \<^verbatim>\<open>build\<close>, the one call
  recorded has the seed as the threaded value, null as \<open>build\<close> and undefined as
  \<open>context\<close>.
\<close>

theorem createBuild_null_value_counterexample:
  "trace (snd (createBuild sample_collaborators (register ''build'' [keep] fresh))) =
     [Invoked ''build'' ''keep'' (makeNewBuild sample_collaborators) Null Undefined] \<and>
   makeNewBuild sample_collaborators \<noteq> Null \<and>
   makeNewBuild sample_collaborators \<noteq> Undefined"
  by (simp add: sample_defs sample_collaborators_def createBuild_def applyHooks_def
       hook_step_def repeat_def debug_def Let_def)

subsection \<open>C5: the cached artifact\<close>

text \<open>
  Claim C5. When \<^verbatim>\<open>buildSchema\<close> has returned the artifact \<open>a\<close>, a second call with no
  invalidation in between returns the same \<open>a\<close> and leaves the whole state as it is:
  nothing is rebuilt. After an invalidation (\<^verbatim>\<open>this.generatedSchema = null\<close>, the first
  step of the trigger), a call that returns has run the construction of the artifact
  exactly once, and so has the trigger as a whole; the call after that one is served from
  the cache again. (An artifact is an object, so a cached artifact is never taken for an
  empty cache by \<^verbatim>\<open>!this.generatedSchema\<close>.)
\<close>

theorem buildSchema_idempotent:
  fixes s :: "('w, 'a) SchemaBuilder"
  assumes "fst (buildSchema env s) = Inr a"
  shows "buildSchema env (snd (buildSchema env s)) = (Inr a, snd (buildSchema env s)) \<and>
         (\<forall>t a'. fst (buildSchema env (t\<lparr>generatedSchema := None\<rparr>)) = Inr a' \<longrightarrow>
            constructions (trace (snd (buildSchema env (t\<lparr>generatedSchema := None\<rparr>)))) =
              Suc (constructions (trace t)) \<and>
            constructions (trace (snd (triggerChange_body env t))) =
              Suc (constructions (trace t)) \<and>
            buildSchema env (snd (buildSchema env (t\<lparr>generatedSchema := None\<rparr>))) =
              (Inr a', snd (buildSchema env (t\<lparr>generatedSchema := None\<rparr>))))"
proof -
  have idem: "buildSchema env (snd (buildSchema env u)) = (Inr x, snd (buildSchema env u))"
    if "fst (buildSchema env u) = Inr x" for u :: "('w, 'a) SchemaBuilder" and x
    using buildSchema_cached[OF buildSchema_fst_Inr[OF that]] .
  show ?thesis
  proof (intro conjI allI impI)
    show "buildSchema env (snd (buildSchema env s)) = (Inr a, snd (buildSchema env s))"
      by (rule idem[OF assms])
  next
    fix t :: "('w, 'a) SchemaBuilder" and a'
    assume h: "fst (buildSchema env (t\<lparr>generatedSchema := None\<rparr>)) = Inr a'"
    show "constructions (trace (snd (buildSchema env (t\<lparr>generatedSchema := None\<rparr>)))) =
              Suc (constructions (trace t))"
      using buildSchema_rebuild_constructions[OF _ h] by simp
    show "constructions (trace (snd (triggerChange_body env t))) =
              Suc (constructions (trace t))"
      by (rule triggerChange_body_constructions[OF h])
    show "buildSchema env (snd (buildSchema env (t\<lparr>generatedSchema := None\<rparr>))) =
              (Inr a', snd (buildSchema env (t\<lparr>generatedSchema := None\<rparr>)))"
      by (rule idem[OF h])
  qed
qed

theorem buildSchema_idempotent_witness:
  "fst (buildSchema sample_collaborators (register ''build'' [keep] fresh)) = Inr 1 \<and>
   fst (buildSchema sample_collaborators
         (snd (buildSchema sample_collaborators (register ''build'' [keep] fresh)))) = Inr 1 \<and>
   constructions (trace
     (snd (buildSchema sample_collaborators (register ''build'' [keep] fresh)))) = 1 \<and>
   constructions (trace
     (snd (buildSchema sample_collaborators
       (snd (buildSchema sample_collaborators (register ''build'' [keep] fresh)))))) = 1 \<and>
   constructions (trace
     (snd (triggerChange_body sample_collaborators
       (snd (buildSchema sample_collaborators (register ''build'' [keep] fresh)))))) = 2"
  using buildSchema_idempotent[of sample_collaborators "register ''build'' [keep] fresh" 1]
  by (simp add: sample_defs sample_collaborators_def buildSchema_def triggerChange_body_def
       emit_schema_def createBuild_def applyHooks_def hook_step_def repeat_def debug_def
       Let_def)

subsection \<open>C6: what a rebuild re-creates\<close>

text \<open>
  Claim C6, as amended. A change trigger clears the cached artifact and calls
  \<^verbatim>\<open>buildSchema\<close>, and \<^verbatim>\<open>buildSchema\<close> on an empty cache always calls
  \<^verbatim>\<open>createBuild\<close>: the build object is a local constant of \<^verbatim>\<open>buildSchema\<close> and is not
  kept. So every rebuild re-creates the context, whatever was built before:

    \<^item> a trigger is \<^verbatim>\<open>createBuild\<close> on the builder with its cache cleared, then, when that
      returns the context \<open>b\<close>, the construction of the artifact from \<open>b\<close>, then, when that
      returns the artifact \<open>a\<close>, the storing of \<open>a\<close> and the \<^verbatim>\<open>schema\<close> event with \<open>a\<close>; an
      error of either step is the error of the trigger;
    \<^item> the context \<open>b\<close> of that \<^verbatim>\<open>createBuild\<close> is the frozen, bound result of the
      \<^verbatim>\<open>build\<close> phase on a fresh seed, and its calls are those of the \<^verbatim>\<open>build\<close> phase on
      the seed followed by those of the \<^verbatim>\<open>init\<close> phase with \<open>b\<close>;
    \<^item> so a trigger that succeeds has made exactly these calls, in this order: the
      \<^verbatim>\<open>build\<close> hooks on a fresh seed, the \<^verbatim>\<open>init\<close> hooks with the new context \<open>b\<close>, the
      construction of the artifact \<open>a\<close> from \<open>b\<close>, the event with \<open>a\<close>; and \<open>a\<close> is the
      cached artifact afterwards;
    \<^item> whatever its outcome, the calls of a trigger begin with those of the \<^verbatim>\<open>build\<close>
      phase on a fresh seed, and so do those of every \<^verbatim>\<open>buildSchema\<close> on an empty cache.
\<close>

theorem triggerChange_recreates_context:
  fixes s :: "('w, 'a) SchemaBuilder"
  assumes "- 1 \<le> depth s" and "hooks s ''build'' = Some hsb"
    and "hooks s ''init'' = Some hsi"
  shows "triggerChange_body env s =
           (case createBuild env (s\<lparr>generatedSchema := None\<rparr>) of
              (Inl e, s1) \<Rightarrow> (Inl e, s1)
            | (Inr b, s1) \<Rightarrow>
               (case buildObjectWithHooks env b (world s1) of
                  (Inl e, w) \<Rightarrow> (Inl e, s1\<lparr>trace := trace s1 @ [Constructed b], world := w\<rparr>)
                | (Inr a, w) \<Rightarrow>
                   emit_schema a
                     (s1\<lparr>trace := trace s1 @ [Constructed b], world := w,
                         generatedSchema := Some a\<rparr>))) \<and>
         (\<forall>b. fst (createBuild env (s\<lparr>generatedSchema := None\<rparr>)) = Inr b \<longrightarrow>
            (\<exists>v ks bound.
               fst (hook_loop ''build'' Null Undefined hsb (makeNewBuild env) (world s)) = Inr v \<and>
               function_keys v = Inr ks \<and> bindAll env v ks = Inr bound \<and>
               b = Object_freeze bound) \<and>
            trace (snd (createBuild env (s\<lparr>generatedSchema := None\<rparr>))) =
              trace s @
              invocations ''build'' Null Undefined hsb (makeNewBuild env) (world s) @
              invocations ''init'' b Undefined hsi (JObj False False [])
                (snd (hook_loop ''build'' Null Undefined hsb (makeNewBuild env) (world s)))) \<and>
         (fst (triggerChange_body env s) = Inr () \<longrightarrow>
            (\<exists>b a. fst (createBuild env (s\<lparr>generatedSchema := None\<rparr>)) = Inr b \<and>
               trace (snd (triggerChange_body env s)) =
                 trace s @
                 invocations ''build'' Null Undefined hsb (makeNewBuild env) (world s) @
                 invocations ''init'' b Undefined hsi (JObj False False [])
                   (snd (hook_loop ''build'' Null Undefined hsb (makeNewBuild env) (world s))) @
                 [Constructed b, Emitted a] \<and>
               generatedSchema (snd (triggerChange_body env s)) = Some a)) \<and>
         (\<exists>rest. trace (snd (triggerChange_body env s)) =
            trace s @
            invocations ''build'' Null Undefined hsb (makeNewBuild env) (world s) @ rest) \<and>
         (generatedSchema s = None \<longrightarrow>
            (\<exists>rest. trace (snd (buildSchema env s)) =
               trace s @
               invocations ''build'' Null Undefined hsb (makeNewBuild env) (world s) @ rest))"
proof -
  let ?s0 = "s\<lparr>generatedSchema := None\<rparr>"
  have a0: "- 1 \<le> depth ?s0" "hooks ?s0 ''build'' = Some hsb" "hooks ?s0 ''init'' = Some hsi"
    using assms by simp_all
  show ?thesis
  proof (intro conjI allI impI)
    show "triggerChange_body env s =
           (case createBuild env ?s0 of
              (Inl e, s1) \<Rightarrow> (Inl e, s1)
            | (Inr b, s1) \<Rightarrow>
               (case buildObjectWithHooks env b (world s1) of
                  (Inl e, w) \<Rightarrow> (Inl e, s1\<lparr>trace := trace s1 @ [Constructed b], world := w\<rparr>)
                | (Inr a, w) \<Rightarrow>
                   emit_schema a
                     (s1\<lparr>trace := trace s1 @ [Constructed b], world := w,
                         generatedSchema := Some a\<rparr>)))"
      by (rule triggerChange_body_createBuild)
  next
    fix b
    assume ok: "fst (createBuild env ?s0) = Inr b"
    from createBuild_result[OF a0(1,2) ok]
    show "\<exists>v ks bound.
               fst (hook_loop ''build'' Null Undefined hsb (makeNewBuild env) (world s)) = Inr v \<and>
               function_keys v = Inr ks \<and> bindAll env v ks = Inr bound \<and>
               b = Object_freeze bound" by simp
    from createBuild_trace_Inr(1)[OF a0 ok]
    show "trace (snd (createBuild env ?s0)) =
              trace s @
              invocations ''build'' Null Undefined hsb (makeNewBuild env) (world s) @
              invocations ''init'' b Undefined hsi (JObj False False [])
                (snd (hook_loop ''build'' Null Undefined hsb (makeNewBuild env) (world s)))"
      by simp
  next
    assume "fst (triggerChange_body env s) = Inr ()"
    then show "\<exists>b a. fst (createBuild env ?s0) = Inr b \<and>
               trace (snd (triggerChange_body env s)) =
                 trace s @
                 invocations ''build'' Null Undefined hsb (makeNewBuild env) (world s) @
                 invocations ''init'' b Undefined hsi (JObj False False [])
                   (snd (hook_loop ''build'' Null Undefined hsb (makeNewBuild env) (world s))) @
                 [Constructed b, Emitted a] \<and>
               generatedSchema (snd (triggerChange_body env s)) = Some a"
      by (rule triggerChange_body_success[OF assms])
  next
    show "\<exists>rest. trace (snd (triggerChange_body env s)) =
            trace s @
            invocations ''build'' Null Undefined hsb (makeNewBuild env) (world s) @ rest"
      by (rule triggerChange_body_build_phase[OF assms(1,2)])
  next
    assume "generatedSchema s = None"
    with assms(1,2) show "\<exists>rest. trace (snd (buildSchema env s)) =
               trace s @
               invocations ''build'' Null Undefined hsb (makeNewBuild env) (world s) @ rest"
      by (rule buildSchema_build_phase)
  qed
qed

theorem triggerChange_recreates_context_witness:
  "generatedSchema (snd (buildSchema sample_collaborators
       (register ''init'' [keep] (register ''build'' [keep] fresh)))) = Some 2 \<and>
   fst (triggerChange_body sample_collaborators
       (snd (buildSchema sample_collaborators
          (register ''init'' [keep] (register ''build'' [keep] fresh))))) = Inr () \<and>
   generatedSchema (snd (triggerChange_body sample_collaborators
       (snd (buildSchema sample_collaborators
          (register ''init'' [keep] (register ''build'' [keep] fresh)))))) = Some 5 \<and>
   trace (snd (triggerChange_body sample_collaborators
       (snd (buildSchema sample_collaborators
          (register ''init'' [keep] (register ''build'' [keep] fresh)))))) =
     [Invoked ''build'' ''keep''
        (JObj False False [(''buildObjectWithHooks'', JObj True False [])]) Null Undefined,
      Invoked ''init'' ''keep'' (JObj False False [])
        (JObj False True [(''buildObjectWithHooks'', JObj True False [])]) Undefined,
      Constructed (JObj False True [(''buildObjectWithHooks'', JObj True False [])]),
      Invoked ''build'' ''keep''
        (JObj False False [(''buildObjectWithHooks'', JObj True False [])]) Null Undefined,
      Invoked ''init'' ''keep'' (JObj False False [])
        (JObj False True [(''buildObjectWithHooks'', JObj True False [])]) Undefined,
      Constructed (JObj False True [(''buildObjectWithHooks'', JObj True False [])]),
      Emitted 5] \<and>
   trace (snd (triggerChange_body sample_collaborators fresh)) =
     [Constructed (JObj False True [(''buildObjectWithHooks'', JObj True False [])]),
      Emitted 0]"
proof -
  define S :: "(nat, nat) SchemaBuilder" where
    "S = snd (buildSchema sample_collaborators
                (register ''init'' [keep] (register ''build'' [keep] fresh)))"
  note defs = sample_defs sample_collaborators_def buildSchema_def triggerChange_body_def
       emit_schema_def createBuild_def applyHooks_def hook_step_def repeat_def debug_def
       Let_def
  have d: "depth S = - 1" and hb: "hooks S ''build'' = Some [keep]"
    and hi: "hooks S ''init'' = Some [keep]" and w: "world S = 3"
    and g: "generatedSchema S = Some 2" and sl: "schemaListeners S = []"
    and tr: "trace S =
      [Invoked ''build'' ''keep''
         (JObj False False [(''buildObjectWithHooks'', JObj True False [])]) Null Undefined,
       Invoked ''init'' ''keep'' (JObj False False [])
         (JObj False True [(''buildObjectWithHooks'', JObj True False [])]) Undefined,
       Constructed (JObj False True [(''buildObjectWithHooks'', JObj True False [])])]"
    unfolding S_def by (simp_all add: defs)
  have d1: "- 1 \<le> depth S" using d by simp
  have f0: "- 1 \<le> depth (fresh :: (nat, nat) SchemaBuilder)"
    and f1: "hooks (fresh :: (nat, nat) SchemaBuilder) ''build'' = Some []"
    and f2: "hooks (fresh :: (nat, nat) SchemaBuilder) ''init'' = Some []"
    by (simp_all add: sample_defs)
  have "generatedSchema S = Some 2 \<and>
   fst (triggerChange_body sample_collaborators S) = Inr () \<and>
   generatedSchema (snd (triggerChange_body sample_collaborators S)) = Some 5 \<and>
   trace (snd (triggerChange_body sample_collaborators S)) =
     [Invoked ''build'' ''keep''
        (JObj False False [(''buildObjectWithHooks'', JObj True False [])]) Null Undefined,
      Invoked ''init'' ''keep'' (JObj False False [])
        (JObj False True [(''buildObjectWithHooks'', JObj True False [])]) Undefined,
      Constructed (JObj False True [(''buildObjectWithHooks'', JObj True False [])]),
      Invoked ''build'' ''keep''
        (JObj False False [(''buildObjectWithHooks'', JObj True False [])]) Null Undefined,
      Invoked ''init'' ''keep'' (JObj False False [])
        (JObj False True [(''buildObjectWithHooks'', JObj True False [])]) Undefined,
      Constructed (JObj False True [(''buildObjectWithHooks'', JObj True False [])]),
      Emitted 5]"
    using triggerChange_recreates_context[OF d1 hb hi, of sample_collaborators]
    by (simp add: defs d hb hi w g sl tr)
  moreover have "trace (snd (triggerChange_body sample_collaborators
        (fresh :: (nat, nat) SchemaBuilder))) =
     [Constructed (JObj False True [(''buildObjectWithHooks'', JObj True False [])]),
      Emitted 0]"
    using triggerChange_recreates_context[OF f0 f1 f2, of sample_collaborators]
    by (simp add: defs)
  ultimately show ?thesis unfolding S_def by simp
qed

text \<open>
  The claim as stated has the context created once and reused by the rebuilds. Here the
  first \<^verbatim>\<open>buildSchema\<close> creates the context (one call of the \<^verbatim>\<open>build\<close> hook) and caches
  the artifact; the trigger that follows calls the \<^verbatim>\<open>build\<close> hook a second time, on a
  new seed.
\<close>

theorem context_reuse_counterexample:
  "generatedSchema (snd (buildSchema sample_collaborators (register ''build'' [keep] fresh))) =
     Some 1 \<and>
   trace (snd (buildSchema sample_collaborators (register ''build'' [keep] fresh))) =
     [Invoked ''build'' ''keep'' (makeNewBuild sample_collaborators) Null Undefined,
      Constructed (Object_freeze (makeNewBuild sample_collaborators))] \<and>
   trace (snd (triggerChange_body sample_collaborators
       (snd (buildSchema sample_collaborators (register ''build'' [keep] fresh))))) =
     [Invoked ''build'' ''keep'' (makeNewBuild sample_collaborators) Null Undefined,
      Constructed (Object_freeze (makeNewBuild sample_collaborators)),
      Invoked ''build'' ''keep'' (makeNewBuild sample_collaborators) Null Undefined,
      Constructed (Object_freeze (makeNewBuild sample_collaborators)),
      Emitted 3]"
  by (simp add: sample_defs sample_collaborators_def buildSchema_def triggerChange_body_def
       emit_schema_def createBuild_def applyHooks_def hook_step_def repeat_def debug_def
       Let_def)

subsection \<open>C7: a watcher that calls the trigger while it is subscribed\<close>

text \<open>
  Claim C7, as amended. \<^verbatim>\<open>watchSchema\<close> is called on a builder that is not watching; the
  watchers before \<open>fn\<close> have been subscribed without an error and without a call of the
  trigger; and the call \<^verbatim>\<open>fn(this.triggerChange)\<close> calls the trigger synchronously
  (\<^verbatim>\<open>changed\<close> is true when the call ends). Then \<^verbatim>\<open>watchSchema\<close> fails at that
  point, with the state the call left: no later watcher is subscribed and the first
  notification is not sent. The error is SynchronousChangeDuringSubscribe when the call
  of \<open>fn\<close> returns, and otherwise the exception that left \<open>fn\<close>: that of the rebuild or
  of a listener, raised inside the trigger, or one of \<open>fn\<close> itself.
\<close>

theorem watchSchema_synchronous_trigger:
  fixes s :: "('w, 'a) SchemaBuilder"
  assumes "\<not> watching s" and "watchers s = pre @ fn # post"
    and "subscribe env 0 pre (watch_begin listener s) = (Inr (), s3)"
    and "run_callback env (triggerChange s3) (fn (triggerChange s3)) False
           (s3\<lparr>trace := trace s3 @ [Listened (length pre) (triggerChange s3)]\<rparr>) =
         (r, True, s4)"
  shows "watchSchema env listener s =
           (case r of
              Inl e \<Rightarrow> (Inl e, s4)
            | Inr u \<Rightarrow> (Inl SynchronousChangeDuringSubscribe, s4))"
proof -
  have "subscribe env 0 (pre @ fn # post) (watch_begin listener s) =
          subscribe env (length pre) (fn # post) s3"
    using assms(3) by (simp add: subscribe_append)
  also have "\<dots> = (case r of
              Inl e \<Rightarrow> (Inl e, s4)
            | Inr u \<Rightarrow> (Inl SynchronousChangeDuringSubscribe, s4))"
    using assms(4) by (simp add: Let_def split: sum.splits)
  finally show ?thesis
    using assms(1,2)
    by (simp add: watchSchema_def Let_def watchers_watch_begin split: sum.splits)
qed

theorem watchSchema_synchronous_trigger_witness:
  "fst (watchSchema sample_collaborators None
          (with_watcher eager_watcher quiet_watcher
             (with_watcher quiet_watcher quiet_watcher fresh))) =
     Inl SynchronousChangeDuringSubscribe \<and>
   trace (snd (watchSchema sample_collaborators None
          (with_watcher eager_watcher quiet_watcher
             (with_watcher quiet_watcher quiet_watcher fresh)))) =
     [Listened 0 (Some 0), Listened 1 (Some 0),
      Constructed (JObj False True [(''buildObjectWithHooks'', JObj True False [])]),
      Emitted 0]"
  using watchSchema_synchronous_trigger[of
          "with_watcher eager_watcher quiet_watcher
             (with_watcher quiet_watcher quiet_watcher fresh)"
          "[quiet_watcher]" eager_watcher "[]" sample_collaborators None
          "snd (subscribe sample_collaborators 0 [quiet_watcher]
                 (watch_begin None (with_watcher eager_watcher quiet_watcher
                    (with_watcher quiet_watcher quiet_watcher fresh))))"
          "Inr ()"
          "snd (watchSchema sample_collaborators None
          (with_watcher eager_watcher quiet_watcher
             (with_watcher quiet_watcher quiet_watcher fresh)))"]
  by (simp add: sample_defs run_defs)

text \<open>
  The claim as stated has the SynchronousChangeDuringSubscribe error for every watcher that
  calls the trigger synchronously. Here the \<^verbatim>\<open>build\<close> hook returns null, so the rebuild
  inside the trigger throws, and that error leaves \<^verbatim>\<open>watchSchema\<close> before the test of
  \<^verbatim>\<open>changed\<close> is reached.
\<close>

theorem watchSchema_other_error_counterexample:
  "fst (watchSchema sample_collaborators None
          (with_watcher eager_watcher quiet_watcher (register ''build'' [returns_null] fresh))) =
     Inl (HookReturnedEmpty ''returns_null'' ''build'')"
  by (simp add: sample_defs run_defs)

subsection \<open>C8: unwatchSchema\<close>

text \<open>
  Claim C8 does not hold of the code when \<^verbatim>\<open>watchSchema\<close> was given a listener.
  \<^verbatim>\<open>unwatchSchema\<close> then calls \<^verbatim>\<open>this.removeEventListener\<close>, which neither the class
  nor the EventEmitter it extends defines: the call throws a TypeError after
  \<^verbatim>\<open>watching\<close> and \<^verbatim>\<open>explicitSchemaListener\<close> have been reset. The listener stays
  subscribed, no unlisten is called and the trigger reference is kept
  (\<open>unwatchSchema_with_listener\<close>, for every watching builder with a listener). Without a
  listener the method does what the claim says: every watcher's unlisten receives the
  trigger that its listen received, and the reference is cleared (\<open>watchSchema_success\<close>,
  \<open>unwatchSchema_without_listener\<close>). The theorem runs both on a builder with one watcher.
\<close>

theorem unwatchSchema_fails_with_listener:
  "fst (watchSchema sample_collaborators (Some sample_listener)
          (with_watcher quiet_watcher quiet_watcher fresh)) = Inr () \<and>
   fst (unwatchSchema sample_collaborators
          (snd (watchSchema sample_collaborators (Some sample_listener)
                  (with_watcher quiet_watcher quiet_watcher fresh)))) =
     Inl (TypeError ''this.removeEventListener is not a function'') \<and>
   triggerChange (snd (unwatchSchema sample_collaborators
          (snd (watchSchema sample_collaborators (Some sample_listener)
                  (with_watcher quiet_watcher quiet_watcher fresh))))) = Some 0 \<and>
   length (schemaListeners (snd (unwatchSchema sample_collaborators
          (snd (watchSchema sample_collaborators (Some sample_listener)
                  (with_watcher quiet_watcher quiet_watcher fresh)))))) = 1 \<and>
   trace (snd (unwatchSchema sample_collaborators
          (snd (watchSchema sample_collaborators (Some sample_listener)
                  (with_watcher quiet_watcher quiet_watcher fresh))))) =
     [Listened 0 (Some 0),
      Constructed (JObj False True [(''buildObjectWithHooks'', JObj True False [])]),
      Emitted 0] \<and>
   fst (unwatchSchema sample_collaborators
          (snd (watchSchema sample_collaborators None
                  (with_watcher quiet_watcher quiet_watcher fresh)))) = Inr () \<and>
   triggerChange (snd (unwatchSchema sample_collaborators
          (snd (watchSchema sample_collaborators None
                  (with_watcher quiet_watcher quiet_watcher fresh))))) = None \<and>
   trace (snd (unwatchSchema sample_collaborators
          (snd (watchSchema sample_collaborators None
                  (with_watcher quiet_watcher quiet_watcher fresh))))) =
     [Listened 0 (Some 0),
      Constructed (JObj False True [(''buildObjectWithHooks'', JObj True False [])]),
      Emitted 0,
      Unlistened 0 (Some 0)]"
  by (simp add: sample_defs run_defs)

subsection \<open>C9: names that were not declared\<close>

text \<open>
  Claim C9 does not hold of the code for the names that \<^verbatim>\<open>this.hooks\<close> inherits from
  \<^verbatim>\<open>Object.prototype\<close>. \<^verbatim>\<open>toString\<close> is not a declared phase, yet
  \<^verbatim>\<open>this.hooks["toString"]\<close> is a function, hence truthy: the guard of \<^verbatim>\<open>hook\<close> lets it
  pass and the \<^verbatim>\<open>push\<close> fails with a TypeError, and in \<^verbatim>\<open>applyHooks\<close> the
  \<^verbatim>\<open>for ... of\<close> fails with a TypeError, where the claim has the UnknownPhase error.
  For every other undeclared name the claim holds (\<open>hook_unknown_phase\<close>,
  \<open>applyHooks_unknown_phase\<close>).
\<close>

theorem inherited_name_not_rejected_as_unknown:
  "fst (hook ''toString'' keep fresh) =
     Inl (TypeError ''this.hooks[hookName].push is not a function'') \<and>
   fst (applyHooks Null ''toString'' Null Undefined [] fresh) =
     Inl (TypeError ''hooks is not iterable'') \<and>
   hooks fresh ''toString'' = None"
  by (simp add: sample_defs applyHooks_def Let_def repeat_def debug_def)

subsection \<open>C10: a failed watchSchema is not rolled back\<close>

text \<open>
  Claim C10 holds of the code but for one part. After a \<^verbatim>\<open>watchSchema\<close> that failed
  because the watcher called the trigger synchronously, the builder is watching, the
  artifact has been rebuilt, cached and emitted, and a second \<^verbatim>\<open>watchSchema\<close> fails with
  AlreadyWatching. The \<^verbatim>\<open>unwatchSchema\<close> that the claim has succeed fails when the failed
  \<^verbatim>\<open>watchSchema\<close> was given a listener, by the call of the undefined
  \<^verbatim>\<open>removeEventListener\<close> (see C8); without a listener it goes on to the unlisten
  calls. \<open>failed_watch_not_rolled_back\<close> has all of this for every builder; the theorem
  runs it on a builder whose one watcher calls the trigger at once.
\<close>

theorem failed_watchSchema_then_unwatchSchema:
  "fst (watchSchema sample_collaborators (Some sample_listener)
          (with_watcher eager_watcher quiet_watcher fresh)) =
     Inl SynchronousChangeDuringSubscribe \<and>
   watching (snd (watchSchema sample_collaborators (Some sample_listener)
          (with_watcher eager_watcher quiet_watcher fresh))) \<and>
   generatedSchema (snd (watchSchema sample_collaborators (Some sample_listener)
          (with_watcher eager_watcher quiet_watcher fresh))) = Some 0 \<and>
   trace (snd (watchSchema sample_collaborators (Some sample_listener)
          (with_watcher eager_watcher quiet_watcher fresh))) =
     [Listened 0 (Some 0),
      Constructed (JObj False True [(''buildObjectWithHooks'', JObj True False [])]),
      Emitted 0] \<and>
   fst (watchSchema sample_collaborators (Some sample_listener)
          (snd (watchSchema sample_collaborators (Some sample_listener)
                  (with_watcher eager_watcher quiet_watcher fresh)))) = Inl AlreadyWatching \<and>
   fst (unwatchSchema sample_collaborators
          (snd (watchSchema sample_collaborators (Some sample_listener)
                  (with_watcher eager_watcher quiet_watcher fresh)))) =
     Inl (TypeError ''this.removeEventListener is not a function'') \<and>
   fst (unwatchSchema sample_collaborators
          (snd (watchSchema sample_collaborators None
                  (with_watcher eager_watcher quiet_watcher fresh)))) = Inr ()"
  by (simp add: sample_defs run_defs)

end
